theory Spec2Isabelle
  imports Main "HOL-Library.Word"
begin

section \<open>ip2country: data model\<close>

text \<open>
  Go's \<open>uint32\<close> is a 32-bit word (comparison is unsigned); the \<open>int64\<close> hit and miss
  counters are 64-bit words, so \<open>atomic.AddInt64\<close> wraps as the source does. Go's \<open>int\<close>
  (lengths, capacities, line numbers) is modelled as \<open>int\<close>: no length of this program
  comes near \<open>2^63\<close>.
\<close>

type_synonym u32 = "32 word"
type_synonym i64 = "64 word"

text \<open>
  Go errors are values built by \<open>fmt.Errorf\<close>; every format string of the package is one
  constructor, and \<open>%w\<close> wrapping is a constructor with an argument. \<open>External\<close> stands for
  an error of the operating system or of the scanner.
\<close>

datatype err =
    External string
  | Canceled
  | DeadlineExceeded
  | NotIPv4 string
  | InvalidIPFormat string
  | InvalidRange u32 u32
  | EmptyCountryCode
  | InvalidRangeAtIndex nat err
  | OverlappingRanges u32 u32 u32 u32
  | OverlappingRangesDetected u32 u32 u32 u32
  | RangeValidationFailed err
  | OpenFailed err
  | StatFailed err
  | FileSizeExceeds int int
  | ScannerError err
  | IncorrectFields nat nat
  | InvalidStartIP string err
  | InvalidEndIP string err
  | InvalidIPField string err
  | NotFound
  | NotFoundCachedMiss
  | InitializationFailed err
  | InvalidIP err
  | ReloadFailed err

section \<open>The LRU cache\<close>

record cacheEntry =
  country :: string
  code :: string
  ip :: u32
  found :: bool

record cacheItem =
  item_value :: cacheEntry
  item_key :: u32

text \<open>
  \<open>container/list\<close> elements are heap nodes with an identity. An element is an address
  (\<open>nat\<close>); \<open>nodes\<close> is the store holding the \<open>*cacheItem\<close> of each element, \<open>evictList\<close>
  the elements of the list from front to back, \<open>items\<close> the map from key to element,
  and \<open>next_node\<close> the next unused address (the allocator). The cache's own mutex is
  taken at the entry of \<open>get\<close>, \<open>put\<close>, \<open>clear\<close> and released at their exit, with no
  call in between that takes it again, so it is not part of the state.
\<close>

record lruCache =
  capacity :: int
  items :: "u32 \<rightharpoonup> nat"
  evictList :: "nat list"
  nodes :: "nat \<Rightarrow> cacheItem"
  next_node :: nat
  hits :: i64
  misses :: i64

definition zero_entry :: cacheEntry where
  "zero_entry = \<lparr>country = [], code = [], ip = 0, found = False\<rparr>"

definition newLRUCache :: "int \<Rightarrow> lruCache" where
  "newLRUCache cap =
     \<lparr>capacity = cap, items = Map.empty, evictList = [],
      nodes = (\<lambda>_. \<lparr>item_value = zero_entry, item_key = 0\<rparr>), next_node = 0,
      hits = 0, misses = 0\<rparr>"

text \<open>\<open>List.MoveToFront\<close>: nothing happens when the element is not in the list.\<close>

definition MoveToFront :: "nat list \<Rightarrow> nat \<Rightarrow> nat list" where
  "MoveToFront l e = (if e \<in> set l then e # remove1 e l else l)"

definition get :: "lruCache \<Rightarrow> u32 \<Rightarrow> cacheEntry option \<times> lruCache" where
  "get c k =
     (case items c k of
        Some elem \<Rightarrow>
          (Some (item_value (nodes c elem)),
           c\<lparr>evictList := MoveToFront (evictList c) elem, hits := hits c + 1\<rparr>)
      | None \<Rightarrow> (None, c\<lparr>misses := misses c + 1\<rparr>))"

text \<open>\<open>removeOldest\<close>: \<open>Back()\<close> is nil on an empty list; otherwise the back element
  leaves the list and its key leaves the index.\<close>

definition removeOldest :: "lruCache \<Rightarrow> lruCache" where
  "removeOldest c =
     (if evictList c = [] then c
      else c\<lparr>evictList := butlast (evictList c),
             items := (items c)(item_key (nodes c (last (evictList c))) := None)\<rparr>)"

definition put :: "lruCache \<Rightarrow> u32 \<Rightarrow> cacheEntry \<Rightarrow> lruCache" where
  "put c k v =
     (case items c k of
        Some elem \<Rightarrow>
          c\<lparr>evictList := MoveToFront (evictList c) elem,
            nodes := (nodes c)(elem := (nodes c elem)\<lparr>item_value := v\<rparr>)\<rparr>
      | None \<Rightarrow>
          (let c1 = (if int (length (evictList c)) \<ge> capacity c then removeOldest c else c);
               elem = next_node c1
           in c1\<lparr>nodes := (nodes c1)(elem := \<lparr>item_value = v, item_key = k\<rparr>),
                 evictList := elem # evictList c1,
                 items := (items c1)(k \<mapsto> elem),
                 next_node := Suc elem\<rparr>))"

definition clear :: "lruCache \<Rightarrow> lruCache" where
  "clear c = c\<lparr>items := Map.empty, evictList := [], hits := 0, misses := 0\<rparr>"

definition getStats :: "lruCache \<Rightarrow> i64 \<times> i64" where
  "getStats c = (hits c, misses c)"

text \<open>The keys held by the recency list, read through the store.\<close>

definition list_keys :: "lruCache \<Rightarrow> u32 list" where
  "list_keys c = map (\<lambda>e. item_key (nodes c e)) (evictList c)"

text \<open>
  The structural invariant of the cache: the list has no element twice and no key
  twice, every listed element is allocated, and the index maps a key to an element
  exactly when that element is listed and carries the key.
\<close>

definition lru_inv :: "lruCache \<Rightarrow> bool" where
  "lru_inv c \<longleftrightarrow>
     distinct (evictList c) \<and> distinct (list_keys c) \<and>
     (\<forall>e \<in> set (evictList c). e < next_node c) \<and>
     (\<forall>k e. items c k = Some e \<longleftrightarrow> e \<in> set (evictList c) \<and> item_key (nodes c e) = k)"

datatype cache_op = Get u32 | Put u32 cacheEntry | Clear

fun apply_op :: "lruCache \<Rightarrow> cache_op \<Rightarrow> lruCache" where
  "apply_op c (Get k) = snd (get c k)"
| "apply_op c (Put k v) = put c k v"
| "apply_op c Clear = clear c"

definition run_ops :: "lruCache \<Rightarrow> cache_op list \<Rightarrow> lruCache" where
  "run_ops c ops = foldl apply_op c ops"

text \<open>A cache entry used in the concrete evaluations below.\<close>

definition au :: cacheEntry where
  "au = \<lparr>country = ''AU'', code = ''AU'', ip = 1, found = True\<rparr>"

section \<open>Ranges, configuration, statistics\<close>

record IPRange =
  Country :: string
  Code :: string
  StartIP :: u32
  EndIP :: u32

definition Contains :: "IPRange \<Rightarrow> u32 \<Rightarrow> bool" where
  "Contains r i \<longleftrightarrow> i \<ge> StartIP r \<and> i \<le> EndIP r"

text \<open>A Go function returning only \<open>error\<close> returns \<open>err option\<close>: \<open>None\<close> is \<open>nil\<close>.\<close>

definition Validate :: "IPRange \<Rightarrow> err option" where
  "Validate r =
     (if StartIP r > EndIP r then Some (InvalidRange (StartIP r) (EndIP r))
      else if Code r = [] then Some EmptyCountryCode
      else None)"

record Config =
  Delimiter :: string
  MaxFileSize :: int
  MaxRanges :: int
  CacheSize :: int
  SkipHeader :: bool

definition DefaultConfig :: Config where
  "DefaultConfig =
     \<lparr>Delimiter = '','', MaxFileSize = 100 * 2 ^ 20, MaxRanges = 1000000,
      CacheSize = 1000, SkipHeader = False\<rparr>"

text \<open>
  \<open>Stats\<close> without its two clock readings (\<open>LastUpdate\<close>, \<open>LoadTime\<close>): \<open>time.Now()\<close> is not
  modelled and no function of the package reads them back.
\<close>

record Stats =
  FileSize :: int
  CacheHits :: i64
  CacheMisses :: i64
  TotalRanges :: int

definition zero_stats :: Stats where
  "zero_stats = \<lparr>FileSize = 0, CacheHits = 0, CacheMisses = 0, TotalRanges = 0\<rparr>"

record ParseError =
  Content :: string
  Err :: err
  Line :: nat

record ParseResult =
  Ranges :: "IPRange list"
  Errors :: "ParseError list"
  ResultStats :: Stats

section \<open>The standard library and the outside world\<close>

text \<open>
  The functions of Go's standard library that the package calls on its data are
  parameters of the model: \<open>strings.Split\<close>, \<open>strings.TrimSpace\<close>, \<open>net.ParseIP\<close> followed
  by \<open>To4\<close> and \<open>binary.BigEndian.Uint32\<close> (\<open>None\<close>: not an IP literal; \<open>IPv6only\<close>: an IP
  with no 4-byte form), \<open>strconv.ParseUint(s, 10, 32)\<close>, and \<open>sort.Slice\<close> called with the
  comparison \<open>StartIP[i] < StartIP[j]\<close>. Go's sort is not stable, so which of two ranges
  with the same start comes first is left to the library.
\<close>

datatype netIP = IPv4 u32 | IPv6only

record golib =
  strings_Split :: "string \<Rightarrow> string \<Rightarrow> string list"
  strings_TrimSpace :: "string \<Rightarrow> string"
  net_ParseIP :: "string \<Rightarrow> netIP option"
  strconv_ParseUint32 :: "string \<Rightarrow> u32 option"
  sort_Slice :: "IPRange list \<Rightarrow> IPRange list"


definition parseIP :: "golib \<Rightarrow> string \<Rightarrow> err + u32" where
  "parseIP L ipStr =
     (case net_ParseIP L ipStr of
        Some (IPv4 w) \<Rightarrow> Inr w
      | Some IPv6only \<Rightarrow> Inl (NotIPv4 ipStr)
      | None \<Rightarrow>
          (case strconv_ParseUint32 L ipStr of
             Some n \<Rightarrow> Inr n
           | None \<Rightarrow> Inl (InvalidIPFormat ipStr)))"

text \<open>
  An opened file: the result of \<open>Stat\<close> (its size), the lines \<open>bufio.Scanner\<close> delivers in
  order, and the error \<open>scanner.Err()\<close> reports once they are exhausted (\<open>None\<close> at a clean
  end of file). The world of one call: what \<open>os.Open\<close> answers for a path, and the
  context, read at the top of every iteration of the scan loop: \<open>ctx_Err E n\<close> is \<open>None\<close>
  while \<open>ctx.Done()\<close> is open after \<open>n\<close> lines, else \<open>ctx.Err()\<close>.
\<close>

record osfile =
  fstat :: "err + int"
  flines :: "string list"
  fscan_err :: "err option"

record env =
  os_Open :: "string \<Rightarrow> err + osfile"
  ctx_Err :: "nat \<Rightarrow> err option"

definition Background :: "nat \<Rightarrow> err option" where
  "Background = (\<lambda>_. None)"

section \<open>Parsing range files\<close>

definition parseLine :: "golib \<Rightarrow> Config \<Rightarrow> string \<Rightarrow> err + IPRange" where
  "parseLine L cfg line =
     (let parts = strings_Split L line (Delimiter cfg) in
      if length parts \<noteq> 3 then Inl (IncorrectFields 3 (length parts))
      else
        (case parseIP L (strings_TrimSpace L (parts ! 0)) of
           Inl e \<Rightarrow> Inl (InvalidStartIP (parts ! 0) e)
         | Inr startIP \<Rightarrow>
             (case parseIP L (strings_TrimSpace L (parts ! 1)) of
                Inl e \<Rightarrow> Inl (InvalidEndIP (parts ! 1) e)
              | Inr endIP \<Rightarrow>
                  (let countryCode = strings_TrimSpace L (parts ! 2);
                       ipRange = \<lparr>Country = countryCode, Code = countryCode,
                                  StartIP = startIP, EndIP = endIP\<rparr>
                   in case Validate ipRange of
                        Some e \<Rightarrow> Inl e
                      | None \<Rightarrow> Inr ipRange))))"

text \<open>
  The scan loop of \<open>parseReaderWithContext\<close>. The result is the context's error, or the
  ranges and line errors collected together with what \<open>scanner.Err()\<close> says after the
  loop: the file's scan error when the lines ran out, \<open>nil\<close> after the \<open>break\<close> on
  \<open>MaxRanges\<close>.
\<close>

fun scan_ranges ::
  "golib \<Rightarrow> Config \<Rightarrow> (nat \<Rightarrow> err option) \<Rightarrow> err option \<Rightarrow> string list \<Rightarrow> nat \<Rightarrow>
   IPRange list \<Rightarrow> ParseError list \<Rightarrow> err + (IPRange list \<times> ParseError list \<times> err option)" where
  "scan_ranges L cfg ctx serr [] lineNum rs es = Inr (rs, es, serr)"
| "scan_ranges L cfg ctx serr (tok # rest) lineNum rs es =
     (case ctx lineNum of
        Some e \<Rightarrow> Inl e
      | None \<Rightarrow>
          (if strings_TrimSpace L tok = [] \<or> (SkipHeader cfg \<and> Suc lineNum = 1)
           then scan_ranges L cfg ctx serr rest (Suc lineNum) rs es
           else
             (case parseLine L cfg (strings_TrimSpace L tok) of
                Inl e \<Rightarrow>
                  scan_ranges L cfg ctx serr rest (Suc lineNum) rs
                    (es @ [\<lparr>Content = strings_TrimSpace L tok, Err = e, Line = Suc lineNum\<rparr>])
              | Inr r \<Rightarrow>
                  (if MaxRanges cfg > 0 \<and> int (length (rs @ [r])) \<ge> MaxRanges cfg
                   then Inr (rs @ [r], es, None)
                   else scan_ranges L cfg ctx serr rest (Suc lineNum) (rs @ [r]) es))))"

definition parseReaderWithContext ::
  "golib \<Rightarrow> Config \<Rightarrow> (nat \<Rightarrow> err option) \<Rightarrow> osfile \<Rightarrow> err + ParseResult" where
  "parseReaderWithContext L cfg ctx f =
     (case scan_ranges L cfg ctx (fscan_err f) (flines f) 0 [] [] of
        Inl e \<Rightarrow> Inl e
      | Inr (rs, es, serr) \<Rightarrow>
          (case serr of
             Some e \<Rightarrow> Inl (ScannerError e)
           | None \<Rightarrow>
               Inr \<lparr>Ranges = rs, Errors = es,
                    ResultStats = zero_stats\<lparr>TotalRanges := int (length rs)\<rparr>\<rparr>))"

definition parseFileWithContext ::
  "golib \<Rightarrow> env \<Rightarrow> Config \<Rightarrow> string \<Rightarrow> err + ParseResult" where
  "parseFileWithContext L E cfg path =
     (case os_Open E path of
        Inl e \<Rightarrow> Inl (OpenFailed e)
      | Inr f \<Rightarrow>
          (case fstat f of
             Inl e \<Rightarrow> Inl (StatFailed e)
           | Inr fileSize \<Rightarrow>
               (if MaxFileSize cfg > 0 \<and> fileSize > MaxFileSize cfg
                then Inl (FileSizeExceeds fileSize (MaxFileSize cfg))
                else
                  (case parseReaderWithContext L cfg (ctx_Err E) f of
                     Inl e \<Rightarrow> Inl e
                   | Inr result \<Rightarrow>
                       Inr (result\<lparr>ResultStats := (ResultStats result)\<lparr>FileSize := fileSize\<rparr>\<rparr>)))))"

section \<open>Sorting, validation, binary search\<close>

text \<open>\<open>db.validateRanges\<close>: the loop \<open>for i := 0; i < len(ranges)-1; i++\<close>.\<close>

function validateRanges_loop :: "IPRange list \<Rightarrow> nat \<Rightarrow> err option" where
  "validateRanges_loop rs i =
     (if int i < int (length rs) - 1 then
        (if EndIP (rs ! i) \<ge> StartIP (rs ! (i + 1))
         then Some (OverlappingRangesDetected (StartIP (rs ! i)) (EndIP (rs ! i))
                      (StartIP (rs ! (i + 1))) (EndIP (rs ! (i + 1))))
         else validateRanges_loop rs (i + 1))
      else None)"
  by pat_completeness auto
termination
  by (relation "measure (\<lambda>(rs, i). length rs - i)") auto

declare validateRanges_loop.simps [simp del]

definition validateRanges :: "IPRange list \<Rightarrow> err option" where
  "validateRanges rs = validateRanges_loop rs 0"




text \<open>
  \<open>sort.Search(n, f)\<close> of the standard library: \<open>i, j := 0, n\<close>; while \<open>i < j\<close>, with
  \<open>h := (i+j)/2\<close>, go right (\<open>i = h + 1\<close>) when \<open>f(h)\<close> is false and left (\<open>j = h\<close>) otherwise;
  the answer is \<open>i\<close>.
\<close>

function search_loop :: "(nat \<Rightarrow> bool) \<Rightarrow> nat \<Rightarrow> nat \<Rightarrow> nat" where
  "search_loop f i j =
     (if i < j then
        (let h = (i + j) div 2 in
         if \<not> f h then search_loop f (h + 1) j else search_loop f i h)
      else i)"
  by pat_completeness auto
termination
  by (relation "measure (\<lambda>(f, i, j). j - i)") auto

declare search_loop.simps [simp del]

definition sort_Search :: "nat \<Rightarrow> (nat \<Rightarrow> bool) \<Rightarrow> nat" where
  "sort_Search n f = search_loop f 0 n"

section \<open>The engines' shared state\<close>

text \<open>
  \<open>sync.RWMutex\<close> as seen by one goroutine running alone: \<open>Lock\<close> is granted on a free
  mutex; on a held one the caller waits for a release that nobody is there to make
  (\<open>None\<close>). Go's mutexes are not reentrant: the holder itself waits too.
\<close>

datatype rwmutex = Unlocked | WriteLocked | ReadLocked nat

definition Lock :: "rwmutex \<Rightarrow> rwmutex option" where
  "Lock m = (if m = Unlocked then Some WriteLocked else None)"

definition Unlock :: "rwmutex \<Rightarrow> rwmutex" where
  "Unlock m = Unlocked"

definition RLock :: "rwmutex \<Rightarrow> rwmutex option" where
  "RLock m =
     (case m of
        Unlocked \<Rightarrow> Some (ReadLocked 1)
      | ReadLocked n \<Rightarrow> Some (ReadLocked (Suc n))
      | WriteLocked \<Rightarrow> None)"

definition RUnlock :: "rwmutex \<Rightarrow> rwmutex" where
  "RUnlock m =
     (case m of
        ReadLocked n \<Rightarrow> (if n \<le> 1 then Unlocked else ReadLocked (n - 1))
      | _ \<Rightarrow> m)"

text \<open>
  A call either returns a value and leaves a state, or never returns: \<open>Blocked s\<close> is
  the state in which the goroutine waits forever.
\<close>

datatype ('a, 's) outcome = Return 'a 's | Blocked 's

fun final_state :: "('a, 's) outcome \<Rightarrow> 's" where
  "final_state (Return r s) = s"
| "final_state (Blocked s) = s"

fun returns :: "('a, 's) outcome \<Rightarrow> bool" where
  "returns (Return r s) = True"
| "returns (Blocked s) = False"

text \<open>
  \<open>IPCountryDB\<close> and \<open>ExactIPCountryMap\<close> declare the same seven fields besides their
  dataset; they are the common part of the two records. A \<open>nil\<close> slice is the empty
  list and a \<open>nil\<close> map the empty map (Go reads both as empty).
\<close>

record engine =
  mu :: rwmutex
  initialized :: int
  initErr :: "err option"
  config :: Config
  stats :: Stats
  filePath :: string
  cache :: lruCache

record IPCountryDB = engine +
  ranges :: "IPRange list"

record ExactIPCountryMap = engine +
  ipMap :: "u32 \<rightharpoonup> string"
  parseErrors :: "ParseError list"

section \<open>The range engine\<close>

definition NewIPCountryDB :: "string \<Rightarrow> Config list \<Rightarrow> IPCountryDB" where
  "NewIPCountryDB path cfgs =
     (let cfg = (case cfgs of [] \<Rightarrow> DefaultConfig | c # _ \<Rightarrow> c);
          cfg1 = (if Delimiter cfg = [] then cfg\<lparr>Delimiter := '',''\<rparr> else cfg);
          cfg2 = (if CacheSize cfg1 \<le> 0 then cfg1\<lparr>CacheSize := 1000\<rparr> else cfg1)
      in \<lparr>mu = Unlocked, initialized = 0, initErr = None, config = cfg2, stats = zero_stats,
          filePath = path, cache = newLRUCache (CacheSize cfg2), ranges = []\<rparr>)"

text \<open>
  \<open>initializeWithContext\<close> after \<open>db.mu.Lock()\<close> has been granted: the second check of
  \<open>initialized\<close>, the parse, the sort, the validation and the commit.
\<close>

definition initialize_locked :: "golib \<Rightarrow> env \<Rightarrow> IPCountryDB \<Rightarrow> err option \<times> IPCountryDB" where
  "initialize_locked L E db =
     (if initialized db = 1 then (initErr db, db)
      else
        (case parseFileWithContext L E (config db) (filePath db) of
           Inl e \<Rightarrow> (Some e, db\<lparr>initErr := Some e\<rparr>)
         | Inr result \<Rightarrow>
             (let sorted_rs = sort_Slice L (Ranges result) in
              case validateRanges sorted_rs of
                Some e \<Rightarrow>
                  (Some (RangeValidationFailed e), db\<lparr>initErr := Some (RangeValidationFailed e)\<rparr>)
              | None \<Rightarrow>
                  (None, db\<lparr>ranges := sorted_rs, stats := ResultStats result,
                             initialized := 1\<rparr>))))"

definition initializeWithContext ::
  "golib \<Rightarrow> env \<Rightarrow> IPCountryDB \<Rightarrow> (err option, IPCountryDB) outcome" where
  "initializeWithContext L E db =
     (if initialized db = 1 then Return (initErr db) db
      else
        (case Lock (mu db) of
           None \<Rightarrow> Blocked db
         | Some m \<Rightarrow>
             (let (r, db') = initialize_locked L E (db\<lparr>mu := m\<rparr>)
              in Return r (db'\<lparr>mu := Unlock (mu db')\<rparr>))))"

text \<open>
  \<open>findCountryForIP\<close>: the cache first; on a miss \<open>sort.Search\<close> for the first range whose
  start is above the address, and the range before it. A Go pair \<open>(value, error)\<close> is a
  sum; the strings returned beside an error are empty and not kept.
\<close>

definition findCountryForIP ::
  "IPCountryDB \<Rightarrow> u32 \<Rightarrow> (err + string \<times> string) \<times> IPCountryDB" where
  "findCountryForIP db ipNum =
     (case get (cache db) ipNum of
        (Some entry, c) \<Rightarrow>
          (if \<not> found entry then (Inl NotFoundCachedMiss, db\<lparr>cache := c\<rparr>)
           else (Inr (country entry, code entry), db\<lparr>cache := c\<rparr>))
      | (None, c) \<Rightarrow>
          (let idx = sort_Search (length (ranges db)) (\<lambda>i. StartIP (ranges db ! i) > ipNum) in
           if idx > 0 \<and> Contains (ranges db ! (idx - 1)) ipNum
           then
             (let rangeItem = ranges db ! (idx - 1) in
              (Inr (Country rangeItem, Code rangeItem),
               db\<lparr>cache := put c ipNum
                    \<lparr>country = Country rangeItem, code = Code rangeItem, ip = ipNum,
                     found = True\<rparr>\<rparr>))
           else
             (Inl NotFound,
              db\<lparr>cache := put c ipNum \<lparr>country = [], code = [], ip = ipNum, found = False\<rparr>\<rparr>)))"

definition GetCountryWithContext ::
  "golib \<Rightarrow> env \<Rightarrow> IPCountryDB \<Rightarrow> string \<Rightarrow> (err + string, IPCountryDB) outcome" where
  "GetCountryWithContext L E db ipStr =
     (case initializeWithContext L E db of
        Blocked s \<Rightarrow> Blocked s
      | Return (Some e) db1 \<Rightarrow> Return (Inl (InitializationFailed e)) db1
      | Return None db1 \<Rightarrow>
          (case parseIP L ipStr of
             Inl e \<Rightarrow> Return (Inl (InvalidIP e)) db1
           | Inr ipNum \<Rightarrow>
               (case RLock (mu db1) of
                  None \<Rightarrow> Blocked db1
                | Some m \<Rightarrow>
                    (let (r, db2) = findCountryForIP (db1\<lparr>mu := m\<rparr>) ipNum
                     in Return (map_sum id fst r) (db2\<lparr>mu := RUnlock (mu db2)\<rparr>)))))"

definition GetCountryCodeWithContext ::
  "golib \<Rightarrow> env \<Rightarrow> IPCountryDB \<Rightarrow> string \<Rightarrow> (err + string, IPCountryDB) outcome" where
  "GetCountryCodeWithContext L E db ipStr =
     (case initializeWithContext L E db of
        Blocked s \<Rightarrow> Blocked s
      | Return (Some e) db1 \<Rightarrow> Return (Inl (InitializationFailed e)) db1
      | Return None db1 \<Rightarrow>
          (case parseIP L ipStr of
             Inl e \<Rightarrow> Return (Inl (InvalidIP e)) db1
           | Inr ipNum \<Rightarrow>
               (case RLock (mu db1) of
                  None \<Rightarrow> Blocked db1
                | Some m \<Rightarrow>
                    (let (r, db2) = findCountryForIP (db1\<lparr>mu := m\<rparr>) ipNum
                     in Return (map_sum id snd r) (db2\<lparr>mu := RUnlock (mu db2)\<rparr>)))))"

text \<open>\<open>GetCountry\<close> and \<open>GetCountryCode\<close> pass \<open>context.Background()\<close>, which is never done.\<close>

definition GetCountry ::
  "golib \<Rightarrow> env \<Rightarrow> IPCountryDB \<Rightarrow> string \<Rightarrow> (err + string, IPCountryDB) outcome" where
  "GetCountry L E db ipStr = GetCountryWithContext L (E\<lparr>ctx_Err := Background\<rparr>) db ipStr"

definition GetCountryCode ::
  "golib \<Rightarrow> env \<Rightarrow> IPCountryDB \<Rightarrow> string \<Rightarrow> (err + string, IPCountryDB) outcome" where
  "GetCountryCode L E db ipStr = GetCountryCodeWithContext L (E\<lparr>ctx_Err := Background\<rparr>) db ipStr"

definition ReloadWithContext ::
  "golib \<Rightarrow> env \<Rightarrow> IPCountryDB \<Rightarrow> (err option, IPCountryDB) outcome" where
  "ReloadWithContext L E db =
     (case Lock (mu db) of
        None \<Rightarrow> Blocked db
      | Some m \<Rightarrow>
          (case initializeWithContext L E
                  (db\<lparr>mu := m, initialized := 0, ranges := [], initErr := None,
                      cache := clear (cache db)\<rparr>) of
             Blocked s \<Rightarrow> Blocked s
           | Return r db' \<Rightarrow>
               Return (map_option ReloadFailed r) (db'\<lparr>mu := Unlock (mu db')\<rparr>)))"

definition Reload :: "golib \<Rightarrow> env \<Rightarrow> IPCountryDB \<Rightarrow> (err option, IPCountryDB) outcome" where
  "Reload L E db = ReloadWithContext L (E\<lparr>ctx_Err := Background\<rparr>) db"

section \<open>The exact engine\<close>

definition NewExactIPCountryMap :: "string \<Rightarrow> Config list \<Rightarrow> ExactIPCountryMap" where
  "NewExactIPCountryMap path cfgs =
     (let cfg = (case cfgs of [] \<Rightarrow> DefaultConfig | c # _ \<Rightarrow> c);
          cfg1 = (if Delimiter cfg = [] then cfg\<lparr>Delimiter := '',''\<rparr> else cfg);
          cfg2 = (if CacheSize cfg1 \<le> 0 then cfg1\<lparr>CacheSize := 1000\<rparr> else cfg1)
      in \<lparr>mu = Unlocked, initialized = 0, initErr = None, config = cfg2, stats = zero_stats,
          filePath = path, cache = newLRUCache (CacheSize cfg2), ipMap = Map.empty,
          parseErrors = []\<rparr>)"

definition Exact_parseLine :: "golib \<Rightarrow> Config \<Rightarrow> string \<Rightarrow> err + (string \<times> u32)" where
  "Exact_parseLine L cfg line =
     (let parts = strings_Split L line (Delimiter cfg) in
      if length parts \<noteq> 2 then Inl (IncorrectFields 2 (length parts))
      else
        (case parseIP L (strings_TrimSpace L (parts ! 0)) of
           Inl e \<Rightarrow> Inl (InvalidIPField (strings_TrimSpace L (parts ! 0)) e)
         | Inr ipNum \<Rightarrow>
             (if strings_TrimSpace L (parts ! 1) = [] then Inl EmptyCountryCode
              else Inr (strings_TrimSpace L (parts ! 1), ipNum))))"

text \<open>
  The scan loop of the exact engine's \<open>parseFileWithContext\<close>. It writes \<open>m.ipMap\<close> and
  \<open>m.parseErrors\<close> as it goes, so the engine is threaded through and comes back in every
  case: with the context's error, or with what \<open>scanner.Err()\<close> says after the loop.
\<close>

fun Exact_scan ::
  "golib \<Rightarrow> (nat \<Rightarrow> err option) \<Rightarrow> err option \<Rightarrow> string list \<Rightarrow> nat \<Rightarrow> int \<Rightarrow>
   ExactIPCountryMap \<Rightarrow> (err + err option) \<times> ExactIPCountryMap" where
  "Exact_scan L ctx serr [] lineNum processed m = (Inr serr, m)"
| "Exact_scan L ctx serr (tok # rest) lineNum processed m =
     (case ctx lineNum of
        Some e \<Rightarrow> (Inl e, m)
      | None \<Rightarrow>
          (if strings_TrimSpace L tok = [] \<or> (SkipHeader (config m) \<and> Suc lineNum = 1)
           then Exact_scan L ctx serr rest (Suc lineNum) processed m
           else
             (case Exact_parseLine L (config m) (strings_TrimSpace L tok) of
                Inl e \<Rightarrow>
                  Exact_scan L ctx serr rest (Suc lineNum) processed
                    (m\<lparr>parseErrors := parseErrors m @
                         [\<lparr>Content = strings_TrimSpace L tok, Err = e, Line = Suc lineNum\<rparr>]\<rparr>)
              | Inr (c, ipNum) \<Rightarrow>
                  (if MaxRanges (config m) > 0 \<and> processed + 1 \<ge> MaxRanges (config m)
                   then (Inr None, m\<lparr>ipMap := (ipMap m)(ipNum \<mapsto> c)\<rparr>)
                   else Exact_scan L ctx serr rest (Suc lineNum) (processed + 1)
                          (m\<lparr>ipMap := (ipMap m)(ipNum \<mapsto> c)\<rparr>)))))"

definition Exact_parseFileWithContext ::
  "golib \<Rightarrow> env \<Rightarrow> ExactIPCountryMap \<Rightarrow> string \<Rightarrow> err option \<times> ExactIPCountryMap" where
  "Exact_parseFileWithContext L E m path =
     (case os_Open E path of
        Inl e \<Rightarrow> (Some (OpenFailed e), m)
      | Inr f \<Rightarrow>
          (case fstat f of
             Inl e \<Rightarrow> (Some (StatFailed e), m)
           | Inr fileSize \<Rightarrow>
               (if MaxFileSize (config m) > 0 \<and> fileSize > MaxFileSize (config m)
                then (Some (FileSizeExceeds fileSize (MaxFileSize (config m))), m)
                else
                  (case Exact_scan L (ctx_Err E) (fscan_err f) (flines f) 0 0
                          (m\<lparr>ipMap := Map.empty, parseErrors := []\<rparr>) of
                     (Inl e, m') \<Rightarrow> (Some e, m')
                   | (Inr (Some e), m') \<Rightarrow> (Some (ScannerError e), m')
                   | (Inr None, m') \<Rightarrow>
                       (None, m'\<lparr>stats := (stats m')\<lparr>FileSize := fileSize\<rparr>\<rparr>)))))"

text \<open>
  The exact engine's \<open>initializeWithContext\<close> after \<open>m.mu.Lock()\<close> has been granted.
  \<open>len(m.ipMap)\<close> is the number of keys of the map.
\<close>

definition Exact_initialize_locked ::
  "golib \<Rightarrow> env \<Rightarrow> ExactIPCountryMap \<Rightarrow> err option \<times> ExactIPCountryMap" where
  "Exact_initialize_locked L E m =
     (if initialized m = 1 then (initErr m, m)
      else
        (case Exact_parseFileWithContext L E m (filePath m) of
           (Some e, m') \<Rightarrow> (Some e, m'\<lparr>initErr := Some e\<rparr>)
         | (None, m') \<Rightarrow>
             (None, m'\<lparr>stats := (stats m')\<lparr>TotalRanges := int (card (dom (ipMap m')))\<rparr>,
                        initialized := 1\<rparr>)))"

definition Exact_initializeWithContext ::
  "golib \<Rightarrow> env \<Rightarrow> ExactIPCountryMap \<Rightarrow> (err option, ExactIPCountryMap) outcome" where
  "Exact_initializeWithContext L E m =
     (if initialized m = 1 then Return (initErr m) m
      else
        (case Lock (mu m) of
           None \<Rightarrow> Blocked m
         | Some l \<Rightarrow>
             (let (r, m') = Exact_initialize_locked L E (m\<lparr>mu := l\<rparr>)
              in Return r (m'\<lparr>mu := Unlock (mu m')\<rparr>))))"

definition Exact_findCountryForIP ::
  "ExactIPCountryMap \<Rightarrow> u32 \<Rightarrow> (err + string \<times> string) \<times> ExactIPCountryMap" where
  "Exact_findCountryForIP m ipNum =
     (case get (cache m) ipNum of
        (Some entry, c) \<Rightarrow>
          (if \<not> found entry then (Inl NotFoundCachedMiss, m\<lparr>cache := c\<rparr>)
           else (Inr (country entry, code entry), m\<lparr>cache := c\<rparr>))
      | (None, c) \<Rightarrow>
          (case ipMap m ipNum of
             None \<Rightarrow>
               (Inl NotFound,
                m\<lparr>cache := put c ipNum \<lparr>country = [], code = [], ip = ipNum, found = False\<rparr>\<rparr>)
           | Some cc \<Rightarrow>
               (Inr (cc, cc),
                m\<lparr>cache := put c ipNum \<lparr>country = cc, code = cc, ip = ipNum, found = True\<rparr>\<rparr>)))"

definition Exact_GetCountryWithContext ::
  "golib \<Rightarrow> env \<Rightarrow> ExactIPCountryMap \<Rightarrow> string \<Rightarrow> (err + string, ExactIPCountryMap) outcome" where
  "Exact_GetCountryWithContext L E m ipStr =
     (case Exact_initializeWithContext L E m of
        Blocked s \<Rightarrow> Blocked s
      | Return (Some e) m1 \<Rightarrow> Return (Inl (InitializationFailed e)) m1
      | Return None m1 \<Rightarrow>
          (case parseIP L ipStr of
             Inl e \<Rightarrow> Return (Inl (InvalidIP e)) m1
           | Inr ipNum \<Rightarrow>
               (case RLock (mu m1) of
                  None \<Rightarrow> Blocked m1
                | Some l \<Rightarrow>
                    (let (r, m2) = Exact_findCountryForIP (m1\<lparr>mu := l\<rparr>) ipNum
                     in Return (map_sum id fst r) (m2\<lparr>mu := RUnlock (mu m2)\<rparr>)))))"

definition Exact_GetCountryCodeWithContext ::
  "golib \<Rightarrow> env \<Rightarrow> ExactIPCountryMap \<Rightarrow> string \<Rightarrow> (err + string, ExactIPCountryMap) outcome" where
  "Exact_GetCountryCodeWithContext L E m ipStr =
     (case Exact_initializeWithContext L E m of
        Blocked s \<Rightarrow> Blocked s
      | Return (Some e) m1 \<Rightarrow> Return (Inl (InitializationFailed e)) m1
      | Return None m1 \<Rightarrow>
          (case parseIP L ipStr of
             Inl e \<Rightarrow> Return (Inl (InvalidIP e)) m1
           | Inr ipNum \<Rightarrow>
               (case RLock (mu m1) of
                  None \<Rightarrow> Blocked m1
                | Some l \<Rightarrow>
                    (let (r, m2) = Exact_findCountryForIP (m1\<lparr>mu := l\<rparr>) ipNum
                     in Return (map_sum id snd r) (m2\<lparr>mu := RUnlock (mu m2)\<rparr>)))))"

definition Exact_ReloadWithContext ::
  "golib \<Rightarrow> env \<Rightarrow> ExactIPCountryMap \<Rightarrow> (err option, ExactIPCountryMap) outcome" where
  "Exact_ReloadWithContext L E m =
     (case Lock (mu m) of
        None \<Rightarrow> Blocked m
      | Some l \<Rightarrow>
          (case Exact_initializeWithContext L E
                  (m\<lparr>mu := l, initialized := 0, ipMap := Map.empty, initErr := None,
                     cache := clear (cache m)\<rparr>) of
             Blocked s \<Rightarrow> Blocked s
           | Return r m' \<Rightarrow>
               Return (map_option ReloadFailed r) (m'\<lparr>mu := Unlock (mu m')\<rparr>)))"

section \<open>A concrete standard library for ASCII text\<close>

text \<open>
  The general theorems hold for every \<open>golib\<close>. The concrete runs below need one: this
  instance agrees with Go on ASCII input with a non-empty separator, decimal numbers
  and dotted-quad IPv4 addresses (it knows no IPv6 literal and no Unicode space). Its
  sort is the insertion sort Go itself runs on slices of at most 12 elements.
\<close>

fun split_from :: "string \<Rightarrow> string \<Rightarrow> string \<Rightarrow> string list" where
  "split_from sep acc [] = [rev acc]"
| "split_from sep acc (c # cs) =
     (if sep \<noteq> [] \<and> take (length sep) (c # cs) = sep
      then rev acc # split_from sep [] (drop (length sep - 1) cs)
      else split_from sep (c # acc) cs)"

definition is_space :: "char \<Rightarrow> bool" where
  "is_space c \<longleftrightarrow> (of_char c :: nat) \<in> {9, 10, 11, 12, 13, 32}"

definition trim_space :: "string \<Rightarrow> string" where
  "trim_space s = rev (dropWhile is_space (rev (dropWhile is_space s)))"

definition digit_of :: "char \<Rightarrow> nat option" where
  "digit_of c =
     (if 48 \<le> (of_char c :: nat) \<and> (of_char c :: nat) \<le> 57 then Some (of_char c - 48) else None)"

fun parse_dec :: "string \<Rightarrow> nat \<Rightarrow> nat option" where
  "parse_dec [] n = Some n"
| "parse_dec (c # cs) n =
     (case digit_of c of None \<Rightarrow> None | Some d \<Rightarrow> parse_dec cs (10 * n + d))"

definition parse_uint32 :: "string \<Rightarrow> u32 option" where
  "parse_uint32 s =
     (if s = [] then None
      else case parse_dec s 0 of
             None \<Rightarrow> None
           | Some n \<Rightarrow> (if n < 2 ^ 32 then Some (of_nat n) else None))"

definition parse_octet :: "string \<Rightarrow> nat option" where
  "parse_octet s =
     (if s = [] \<or> length s > 3 \<or> (length s > 1 \<and> hd s = CHR ''0'') then None
      else case parse_dec s 0 of
             None \<Rightarrow> None
           | Some n \<Rightarrow> (if n \<le> 255 then Some n else None))"

definition parse_ipv4 :: "string \<Rightarrow> netIP option" where
  "parse_ipv4 s =
     (case map parse_octet (split_from ''.'' [] s) of
        [Some a, Some b, Some c, Some d] \<Rightarrow>
          Some (IPv4 (of_nat a * 2 ^ 24 + of_nat b * 2 ^ 16 + of_nat c * 2 ^ 8 + of_nat d))
      | _ \<Rightarrow> None)"

definition ascii_lib :: golib where
  "ascii_lib =
     \<lparr>strings_Split = (\<lambda>s sep. split_from sep [] s), strings_TrimSpace = trim_space,
      net_ParseIP = parse_ipv4, strconv_ParseUint32 = parse_uint32,
      sort_Slice = sort_key StartIP\<rparr>"

section \<open>Reference notions for the claims\<close>

text \<open>
  The words of the specification: a collection sorted ascending by start, adjacent
  ranges that do not overlap, and the linear scan that returns the first range
  containing the address.
\<close>

definition sorted_by_start :: "IPRange list \<Rightarrow> bool" where
  "sorted_by_start rs \<longleftrightarrow> sorted (map StartIP rs)"

fun non_overlapping :: "IPRange list \<Rightarrow> bool" where
  "non_overlapping (a # b # rs) \<longleftrightarrow> EndIP a < StartIP b \<and> non_overlapping (b # rs)"
| "non_overlapping _ \<longleftrightarrow> True"

definition linear_scan :: "IPRange list \<Rightarrow> u32 \<Rightarrow> IPRange option" where
  "linear_scan rs i = find (\<lambda>r. Contains r i) rs"

text \<open>The cache entry that a search of \<open>rs\<close> for the address stores.\<close>

definition entry_for :: "IPRange list \<Rightarrow> u32 \<Rightarrow> cacheEntry" where
  "entry_for rs i =
     (case linear_scan rs i of
        Some r \<Rightarrow> \<lparr>country = Country r, code = Code r, ip = i, found = True\<rparr>
      | None \<Rightarrow> \<lparr>country = [], code = [], ip = i, found = False\<rparr>)"

text \<open>
  Every entry reachable through the index is allocated, carries its key, and
  satisfies \<open>P\<close>.
\<close>

definition cache_all :: "(u32 \<Rightarrow> cacheEntry \<Rightarrow> bool) \<Rightarrow> lruCache \<Rightarrow> bool" where
  "cache_all P c \<longleftrightarrow>
     (\<forall>k e. items c k = Some e \<longrightarrow>
        e < next_node c \<and> item_key (nodes c e) = k \<and> P k (item_value (nodes c e)))"

text \<open>A run of lookups on the range engine, one after the other.\<close>

definition lookups :: "IPCountryDB \<Rightarrow> u32 list \<Rightarrow> IPCountryDB" where
  "lookups db ips = foldl (\<lambda>d i. snd (findCountryForIP d i)) db ips"

text \<open>Not-found, with either of its two messages.\<close>

definition not_found :: "err + 'a \<Rightarrow> bool" where
  "not_found r \<longleftrightarrow> r = Inl NotFound \<or> r = Inl NotFoundCachedMiss"

definition same_result :: "err + 'a \<Rightarrow> err + 'a \<Rightarrow> bool" where
  "same_result r1 r2 \<longleftrightarrow> r1 = r2 \<or> (not_found r1 \<and> not_found r2)"

fun returned :: "('a, 's) outcome \<Rightarrow> 'a option" where
  "returned (Return r s) = Some r"
| "returned (Blocked s) = None"


text \<open>
  The branch of \<open>findCountryForIP\<close> taken on a cache miss: what it returns and the
  entry it stores.
\<close>

definition searched :: "IPCountryDB \<Rightarrow> u32 \<Rightarrow> (err + string \<times> string) \<times> cacheEntry" where
  "searched db ipn =
     (let idx = sort_Search (length (ranges db)) (\<lambda>i. StartIP (ranges db ! i) > ipn) in
      if idx > 0 \<and> Contains (ranges db ! (idx - 1)) ipn
      then (Inr (Country (ranges db ! (idx - 1)), Code (ranges db ! (idx - 1))),
            \<lparr>country = Country (ranges db ! (idx - 1)), code = Code (ranges db ! (idx - 1)),
             ip = ipn, found = True\<rparr>)
      else (Inl NotFound, \<lparr>country = [], code = [], ip = ipn, found = False\<rparr>))"

definition Exact_searched :: "ExactIPCountryMap \<Rightarrow> u32 \<Rightarrow> (err + string \<times> string) \<times> cacheEntry" where
  "Exact_searched m ipn =
     (case ipMap m ipn of
        None \<Rightarrow> (Inl NotFound, \<lparr>country = [], code = [], ip = ipn, found = False\<rparr>)
      | Some cc \<Rightarrow> (Inr (cc, cc), \<lparr>country = cc, code = cc, ip = ipn, found = True\<rparr>))"


inductive Exact_reachable :: "golib \<Rightarrow> ExactIPCountryMap \<Rightarrow> bool" for L :: golib where
  new: "Exact_reachable L (NewExactIPCountryMap path cfgs)"
| get_country:
    "Exact_reachable L m \<Longrightarrow> Exact_GetCountryWithContext L E m s = Return r m' \<Longrightarrow>
     Exact_reachable L m'"
| get_code:
    "Exact_reachable L m \<Longrightarrow> Exact_GetCountryCodeWithContext L E m s = Return r m' \<Longrightarrow>
     Exact_reachable L m'"
| reload:
    "Exact_reachable L m \<Longrightarrow> Exact_ReloadWithContext L E m = Return r' m' \<Longrightarrow>
     Exact_reachable L m'"

definition mirrored :: "lruCache \<Rightarrow> bool" where
  "mirrored c \<longleftrightarrow> cache_all (\<lambda>k v. country v = code v) c"


definition Exact_engine_ok :: "ExactIPCountryMap \<Rightarrow> bool" where
  "Exact_engine_ok m \<longleftrightarrow> mu m = Unlocked \<and> mirrored (cache m)"


text \<open>
  The time of the last use of a key in a history of cache operations: the position,
  counted from 1, of the last \<open>get\<close> or \<open>put\<close> of that key, and 0 when there is none.
\<close>

fun touches :: "cache_op \<Rightarrow> u32 \<Rightarrow> bool" where
  "touches (Get k') k \<longleftrightarrow> k' = k"
| "touches (Put k' v) k \<longleftrightarrow> k' = k"
| "touches Clear k \<longleftrightarrow> False"

fun last_use_rev :: "cache_op list \<Rightarrow> u32 \<Rightarrow> nat" where
  "last_use_rev [] k = 0"
| "last_use_rev (op # older) k = (if touches op k then Suc (length older) else last_use_rev older k)"

definition last_use :: "cache_op list \<Rightarrow> u32 \<Rightarrow> nat" where
  "last_use ops k = last_use_rev (rev ops) k"

text \<open>Keys listed from the most recently used to the least recently used.\<close>

definition recency_ordered :: "cache_op list \<Rightarrow> u32 list \<Rightarrow> bool" where
  "recency_ordered ops ks \<longleftrightarrow> sorted_wrt (\<lambda>a b. last_use ops b < last_use ops a) ks"

section \<open>Example data\<close>

text \<open>
  The data file of the README: \<open>1.0.0.0-1.0.0.255\<close> is AU, \<open>1.0.1.0-1.0.3.255\<close> is CN,
  \<open>8.8.8.0-8.8.8.255\<close> is US; and an engine that has committed it.
\<close>

definition example_ranges :: "IPRange list" where
  "example_ranges =
     [\<lparr>Country = ''AU'', Code = ''AU'', StartIP = 16777216, EndIP = 16777471\<rparr>,
      \<lparr>Country = ''CN'', Code = ''CN'', StartIP = 16777472, EndIP = 16778239\<rparr>,
      \<lparr>Country = ''US'', Code = ''US'', StartIP = 134744064, EndIP = 134744319\<rparr>]"

definition example_db :: IPCountryDB where
  "example_db = (NewIPCountryDB ''ip_to_country.csv'' [])\<lparr>ranges := example_ranges, initialized := 1\<rparr>"

definition example_lines :: "string list" where
  "example_lines = [''1.0.0.0,1.0.0.255,AU'', ''1.0.1.0,1.0.3.255,CN'', ''8.8.8.0,8.8.8.255,US'']"

definition good_file :: osfile where
  "good_file = \<lparr>fstat = Inr 63, flines = example_lines, fscan_err = None\<rparr>"

definition overlap_file :: osfile where
  "overlap_file = \<lparr>fstat = Inr 20, flines = [''0,100,AA'', ''50,150,BB''], fscan_err = None\<rparr>"

definition world :: "(err + osfile) \<Rightarrow> env" where
  "world f = \<lparr>os_Open = (\<lambda>_. f), ctx_Err = Background\<rparr>"

definition example_map :: ExactIPCountryMap where
  "example_map =
     (NewExactIPCountryMap ''ips.csv'' [])\<lparr>ipMap := [16909060 \<mapsto> ''US''], initialized := 1\<rparr>"

text \<open>A new engine, and the engine after its first load of the good file.\<close>

definition fresh_db :: IPCountryDB where
  "fresh_db = NewIPCountryDB ''ip_to_country.csv'' []"


text \<open>
  A world in which the data file does not exist, and the engine after a first lookup
  in that world and a second one in a world where the good file is there.
\<close>

definition missing_world :: env where
  "missing_world = world (Inl (External ''open ip_to_country.csv: no such file or directory''))"

definition after_failed :: IPCountryDB where
  "after_failed = final_state (GetCountryCode ascii_lib missing_world fresh_db ''8.8.8.8'')"

definition after_retry :: IPCountryDB where
  "after_retry =
     final_state (GetCountryCode ascii_lib (world (Inr good_file)) after_failed ''8.8.8.8'')"

text \<open>
  Files for the exact engine: one whose second line is longer than the scanner's
  buffer, so that the scan stops with an error after the first line; and one with
  two good lines, read under a context that is cancelled after the first line.
\<close>

definition truncated_file :: osfile where
  "truncated_file =
     \<lparr>fstat = Inr 70000, flines = [''1.2.3.4,US''],
      fscan_err = Some (External ''bufio.Scanner: token too long'')\<rparr>"

definition two_line_file :: osfile where
  "two_line_file = \<lparr>fstat = Inr 22, flines = [''1.2.3.4,US'', ''5.6.7.8,DE''], fscan_err = None\<rparr>"

definition cancel_world :: env where
  "cancel_world =
     \<lparr>os_Open = (\<lambda>_. Inr two_line_file), ctx_Err = (\<lambda>n. if 1 \<le> n then Some Canceled else None)\<rparr>"

definition fresh_map :: ExactIPCountryMap where
  "fresh_map = NewExactIPCountryMap ''ips.csv'' []"

definition truncated_range_file :: osfile where
  "truncated_range_file =
     \<lparr>fstat = Inr 70000, flines = [''1.0.0.0,1.0.0.255,AU''],
      fscan_err = Some (External ''bufio.Scanner: token too long'')\<rparr>"

section \<open>The cache invariant\<close>

lemma lru_inv_alt:
  "lru_inv c \<longleftrightarrow>
     distinct (evictList c) \<and> inj_on (\<lambda>e. item_key (nodes c e)) (set (evictList c)) \<and>
     (\<forall>e \<in> set (evictList c). e < next_node c) \<and>
     (\<forall>k e. items c k = Some e \<longleftrightarrow> e \<in> set (evictList c) \<and> item_key (nodes c e) = k)"
  by (auto simp: lru_inv_def list_keys_def distinct_map)

lemma lru_inv_new: "lru_inv (newLRUCache cap)"
  by (simp add: lru_inv_def newLRUCache_def list_keys_def)

lemma lru_inv_clear: "lru_inv c \<Longrightarrow> lru_inv (clear c)"
  by (simp add: lru_inv_def clear_def list_keys_def)

lemma insert_remove1: "e \<in> set l \<Longrightarrow> insert e (set (remove1 e l)) = set l"
  by (induction l) auto

lemma set_MoveToFront: "set (MoveToFront l e) = set l"
  by (simp add: MoveToFront_def insert_remove1)

lemma distinct_MoveToFront: "distinct l \<Longrightarrow> distinct (MoveToFront l e)"
  by (auto simp: MoveToFront_def)

lemma length_MoveToFront: "length (MoveToFront l e) = length l"
  by (cases "e \<in> set l") (auto simp: MoveToFront_def length_remove1 intro: Suc_pred length_pos_if_in_set)

lemma lru_inv_counters [simp]:
  "lru_inv (c\<lparr>hits := h\<rparr>) = lru_inv c" "lru_inv (c\<lparr>misses := m\<rparr>) = lru_inv c"
  by (simp_all add: lru_inv_alt)

lemma lru_inv_MoveToFront: "lru_inv c \<Longrightarrow> lru_inv (c\<lparr>evictList := MoveToFront (evictList c) e\<rparr>)"
  by (simp add: lru_inv_alt set_MoveToFront distinct_MoveToFront)

lemma lru_inv_get: "lru_inv c \<Longrightarrow> lru_inv (snd (get c k))"
  by (cases "items c k") (simp_all add: get_def lru_inv_MoveToFront)

lemma set_butlast_distinct:
  assumes "distinct l" "l \<noteq> []"
  shows "set (butlast l) = set l - {last l}"
proof -
  have eq: "butlast l @ [last l] = l" using assms(2) by (rule append_butlast_last_id)
  have "distinct (butlast l @ [last l])" using assms(1) by (simp only: eq)
  then have notin: "last l \<notin> set (butlast l)" by simp
  have "set l = set (butlast l @ [last l])" by (simp only: eq)
  then have "set l = insert (last l) (set (butlast l))" by simp
  then show ?thesis using notin by blast
qed

lemma lru_inv_removeOldest:
  assumes "lru_inv c"
  shows "lru_inv (removeOldest c)"
proof (cases "evictList c = []")
  case True
  then show ?thesis using assms by (simp add: removeOldest_def)
next
  case False
  let ?l = "evictList c" and ?b = "last (evictList c)"
  let ?kb = "item_key (nodes c ?b)"
  have d: "distinct ?l" and inj: "inj_on (\<lambda>e. item_key (nodes c e)) (set ?l)"
    and lt: "\<forall>e \<in> set ?l. e < next_node c"
    and idx: "\<forall>k e. items c k = Some e \<longleftrightarrow> e \<in> set ?l \<and> item_key (nodes c e) = k"
    using assms unfolding lru_inv_alt by blast+
  have sb: "set (butlast ?l) = set ?l - {?b}" using d False by (rule set_butlast_distinct)
  have bl: "?b \<in> set ?l" using False by simp
  have 1: "distinct (butlast ?l)" using d by (rule distinct_butlast)
  have 2: "inj_on (\<lambda>e. item_key (nodes c e)) (set (butlast ?l))"
    using inj sb by (auto simp: inj_on_def)
  have 3: "\<forall>e \<in> set (butlast ?l). e < next_node c" using lt sb by auto
  have 4: "\<forall>k e. ((items c)(?kb := None)) k = Some e \<longleftrightarrow>
              e \<in> set (butlast ?l) \<and> item_key (nodes c e) = k"
  proof (intro allI)
    fix k e
    show "((items c)(?kb := None)) k = Some e \<longleftrightarrow> e \<in> set (butlast ?l) \<and> item_key (nodes c e) = k"
    proof (cases "k = ?kb")
      case True
      have "\<not> (e \<in> set (butlast ?l) \<and> item_key (nodes c e) = ?kb)"
      proof
        assume a: "e \<in> set (butlast ?l) \<and> item_key (nodes c e) = ?kb"
        then have "e \<in> set ?l" "e \<noteq> ?b" using sb by auto
        moreover have "e = ?b" using inj a bl \<open>e \<in> set ?l\<close> by (auto simp: inj_on_def)
        ultimately show False by simp
      qed
      then show ?thesis using True by simp
    next
      case False
      then have "e \<in> set ?l \<and> item_key (nodes c e) = k \<longleftrightarrow> e \<in> set (butlast ?l) \<and> item_key (nodes c e) = k"
        using sb by auto
      then show ?thesis using False idx by simp
    qed
  qed
  show ?thesis unfolding lru_inv_alt removeOldest_def using False 1 2 3 4 by simp
qed

lemma next_node_removeOldest: "next_node (removeOldest c) = next_node c"
  by (simp add: removeOldest_def)

lemma nodes_removeOldest: "nodes (removeOldest c) = nodes c"
  by (simp add: removeOldest_def)

lemma lru_inv_put_new:
  assumes "lru_inv c" "items c k = None"
  shows "lru_inv (c\<lparr>nodes := (nodes c)(next_node c := \<lparr>item_value = v, item_key = k\<rparr>),
                 evictList := next_node c # evictList c,
                 items := (items c)(k \<mapsto> next_node c),
                 next_node := Suc (next_node c)\<rparr>)"
proof -
  let ?n = "next_node c" and ?l = "evictList c"
  let ?nodes = "(nodes c)(?n := \<lparr>item_value = v, item_key = k\<rparr>)"
  have d: "distinct ?l" and inj: "inj_on (\<lambda>e. item_key (nodes c e)) (set ?l)"
    and lt: "\<forall>e \<in> set ?l. e < ?n"
    and idx: "\<forall>k e. items c k = Some e \<longleftrightarrow> e \<in> set ?l \<and> item_key (nodes c e) = k"
    using assms(1) unfolding lru_inv_alt by blast+
  have ne: "\<And>e. e \<in> set ?l \<Longrightarrow> e \<noteq> ?n" using lt by auto
  have same: "\<And>e. e \<in> set ?l \<Longrightarrow> ?nodes e = nodes c e" using ne by simp
  have nokey: "\<And>e. e \<in> set ?l \<Longrightarrow> item_key (nodes c e) \<noteq> k"
    using idx assms(2) by (metis option.distinct(1))
  have 1: "distinct (?n # ?l)" using d ne by auto
  have 2: "inj_on (\<lambda>e. item_key (?nodes e)) (set (?n # ?l))"
    unfolding inj_on_def
  proof (intro ballI impI)
    fix x y assume x: "x \<in> set (?n # ?l)" and y: "y \<in> set (?n # ?l)"
      and eq: "item_key (?nodes x) = item_key (?nodes y)"
    show "x = y"
    proof (cases "x = ?n")
      case True
      then show ?thesis using y eq nokey same by (cases "y = ?n") auto
    next
      case False
      then have xl: "x \<in> set ?l" using x by simp
      show ?thesis
      proof (cases "y = ?n")
        case True
        then show ?thesis using xl eq nokey same by auto
      next
        case False
        then have yl: "y \<in> set ?l" using y by simp
        then show ?thesis using xl eq same inj by (auto simp: inj_on_def)
      qed
    qed
  qed
  have 3: "\<forall>e \<in> set (?n # ?l). e < Suc ?n" using lt by auto
  have 4: "\<forall>k' e. ((items c)(k \<mapsto> ?n)) k' = Some e \<longleftrightarrow>
              e \<in> set (?n # ?l) \<and> item_key (?nodes e) = k'"
  proof (intro allI)
    fix k' e
    show "((items c)(k \<mapsto> ?n)) k' = Some e \<longleftrightarrow> e \<in> set (?n # ?l) \<and> item_key (?nodes e) = k'"
    proof (cases "e = ?n")
      case True
      then show ?thesis using idx ne by (cases "k' = k") auto
    next
      case False
      then show ?thesis using idx nokey by (cases "k' = k") auto
    qed
  qed
  show ?thesis unfolding lru_inv_alt using 1 2 3 4 by simp
qed

lemma lru_inv_put_existing:
  assumes "lru_inv c" "items c k = Some e"
  shows "lru_inv (c\<lparr>evictList := MoveToFront (evictList c) e,
            nodes := (nodes c)(e := (nodes c e)\<lparr>item_value := v\<rparr>)\<rparr>)"
proof -
  have keys: "(\<lambda>x. item_key (((nodes c)(e := (nodes c e)\<lparr>item_value := v\<rparr>)) x)) = (\<lambda>x. item_key (nodes c x))"
    by auto
  have keys': "\<And>x. item_key (((nodes c)(e := (nodes c e)\<lparr>item_value := v\<rparr>)) x) = item_key (nodes c x)"
    by simp
  show ?thesis
    using assms(1) unfolding lru_inv_alt
    by (simp add: set_MoveToFront distinct_MoveToFront keys keys' del: fun_upd_apply)
qed

lemma lru_inv_put: "lru_inv c \<Longrightarrow> lru_inv (put c k v)"
proof (cases "items c k")
  case None
  assume inv: "lru_inv c"
  let ?c1 = "if int (length (evictList c)) \<ge> capacity c then removeOldest c else c"
  have 1: "lru_inv ?c1" using inv by (simp add: lru_inv_removeOldest)
  have 2: "items ?c1 k = None" using None by (simp add: removeOldest_def)
  show ?thesis
    using lru_inv_put_new[OF 1 2, of v] None
    by (simp add: put_def Let_def)
next
  case (Some e)
  assume inv: "lru_inv c"
  show ?thesis using lru_inv_put_existing[OF inv Some, of v] Some by (simp add: put_def)
qed

lemma lru_inv_apply_op: "lru_inv c \<Longrightarrow> lru_inv (apply_op c op)"
  by (cases op) (simp_all add: lru_inv_get lru_inv_put lru_inv_clear)

lemma capacity_apply_op: "capacity (apply_op c op) = capacity c"
  by (cases op) (auto simp: get_def put_def clear_def removeOldest_def Let_def split: option.splits)

lemma length_put_le:
  assumes "1 \<le> capacity c" "int (length (evictList c)) \<le> capacity c"
  shows "int (length (evictList (put c k v))) \<le> capacity (put c k v)"
  using assms
  by (auto simp: put_def Let_def removeOldest_def length_MoveToFront split: option.splits)

lemma length_apply_op_le:
  assumes "1 \<le> capacity c" "int (length (evictList c)) \<le> capacity c"
  shows "int (length (evictList (apply_op c op))) \<le> capacity c"
proof (cases op)
  case (Put k v)
  then show ?thesis using length_put_le[OF assms, of k v] capacity_apply_op[of c op] by simp
qed (use assms in \<open>auto simp: get_def clear_def length_MoveToFront split: option.splits\<close>)

lemma run_ops_inv:
  assumes "1 \<le> capacity c" "int (length (evictList c)) \<le> capacity c" "lru_inv c"
  shows "lru_inv (run_ops c ops) \<and> capacity (run_ops c ops) = capacity c \<and>
         int (length (evictList (run_ops c ops))) \<le> capacity c"
  using assms unfolding run_ops_def
proof (induction ops arbitrary: c)
  case Nil
  then show ?case by simp
next
  case (Cons op ops)
  have "1 \<le> capacity (apply_op c op)" using Cons.prems by (simp add: capacity_apply_op)
  moreover have "int (length (evictList (apply_op c op))) \<le> capacity (apply_op c op)"
    using length_apply_op_le[OF Cons.prems(1,2)] by (simp add: capacity_apply_op)
  moreover have "lru_inv (apply_op c op)" using Cons.prems by (simp add: lru_inv_apply_op)
  ultimately show ?case using Cons.IH[of "apply_op c op"] by (simp add: capacity_apply_op)
qed

lemma lru_inv_dom: "lru_inv c \<Longrightarrow> dom (items c) = set (list_keys c)"
  by (auto simp: lru_inv_def list_keys_def dom_def)

lemma lru_inv_card:
  assumes "lru_inv c"
  shows "card (dom (items c)) = length (evictList c)"
proof -
  have "distinct (list_keys c)" using assms by (simp add: lru_inv_def)
  then have "card (set (list_keys c)) = length (list_keys c)" by (rule distinct_card)
  moreover have "length (list_keys c) = length (evictList c)" by (simp add: list_keys_def)
  ultimately show ?thesis using assms by (simp add: lru_inv_dom)
qed

section \<open>The recency list is ordered by last use\<close>

lemma last_use_snoc:
  "last_use (ops @ [op]) k = (if touches op k then Suc (length ops) else last_use ops k)"
  by (simp add: last_use_def)

lemma last_use_rev_le: "last_use_rev ops k \<le> length ops"
  by (induction ops) auto

lemma last_use_le: "last_use ops k \<le> length ops"
  using last_use_rev_le[of "rev ops" k] by (simp add: last_use_def)

lemma map_remove1_inj:
  "inj_on f (set l) \<Longrightarrow> e \<in> set l \<Longrightarrow> map f (remove1 e l) = remove1 (f e) (map f l)"
proof (induction l)
  case Nil
  then show ?case by simp
next
  case (Cons a l)
  show ?case
  proof (cases "a = e")
    case True
    then show ?thesis by simp
  next
    case False
    then have el: "e \<in> set l" using Cons.prems(2) by simp
    have "f a \<noteq> f e" using Cons.prems(1) False el by (auto simp: inj_on_def)
    moreover have "inj_on f (set l)" using Cons.prems(1) by (simp add: inj_on_def)
    ultimately show ?thesis using Cons.IH el False by simp
  qed
qed

lemma lru_inv_member:
  assumes "lru_inv c"
  shows "k \<in> set (list_keys c) \<longleftrightarrow> items c k \<noteq> None"
  using lru_inv_dom[OF assms] by (auto simp: dom_def)

lemma list_keys_MoveToFront:
  assumes "lru_inv c" "items c k = Some e"
  shows "map (\<lambda>x. item_key (nodes c x)) (MoveToFront (evictList c) e) = k # remove1 k (list_keys c)"
proof -
  have el: "e \<in> set (evictList c)" and ke: "item_key (nodes c e) = k"
    and inj: "inj_on (\<lambda>x. item_key (nodes c x)) (set (evictList c))"
    using assms unfolding lru_inv_alt by blast+
  show ?thesis
    using el ke map_remove1_inj[OF inj el] by (simp add: MoveToFront_def list_keys_def)
qed

lemma list_keys_get:
  assumes "lru_inv c"
  shows "list_keys (snd (get c k)) =
           (if k \<in> set (list_keys c) then k # remove1 k (list_keys c) else list_keys c)"
proof (cases "items c k")
  case None
  then show ?thesis using lru_inv_member[OF assms, of k] by (simp add: get_def list_keys_def)
next
  case (Some e)
  have "list_keys (snd (get c k)) = map (\<lambda>x. item_key (nodes c x)) (MoveToFront (evictList c) e)"
    using Some by (simp add: get_def list_keys_def)
  then show ?thesis
    using list_keys_MoveToFront[OF assms Some] lru_inv_member[OF assms, of k] Some by simp
qed

lemma list_keys_removeOldest:
  "list_keys (removeOldest c) = butlast (list_keys c)"
  by (simp add: removeOldest_def list_keys_def map_butlast)

lemma list_keys_put:
  assumes "lru_inv c"
  shows "list_keys (put c k v) =
           (if k \<in> set (list_keys c) then k # remove1 k (list_keys c)
            else k # (if capacity c \<le> int (length (list_keys c)) then butlast (list_keys c)
                      else list_keys c))"
proof (cases "items c k")
  case (Some e)
  have keys: "(\<lambda>x. item_key (((nodes c)(e := (nodes c e)\<lparr>item_value := v\<rparr>)) x)) =
              (\<lambda>x. item_key (nodes c x))"
    by auto
  have "list_keys (put c k v) = map (\<lambda>x. item_key (nodes c x)) (MoveToFront (evictList c) e)"
    using Some keys by (simp add: put_def list_keys_def del: fun_upd_apply)
  then show ?thesis
    using list_keys_MoveToFront[OF assms Some] lru_inv_member[OF assms, of k] Some by simp
next
  case None
  let ?c1 = "if capacity c \<le> int (length (evictList c)) then removeOldest c else c"
  have inv1: "lru_inv ?c1" using assms by (simp add: lru_inv_removeOldest)
  have fresh: "\<forall>e \<in> set (evictList ?c1). e \<noteq> next_node ?c1"
    using inv1 unfolding lru_inv_alt by auto
  have "list_keys (put c k v) =
          k # map (\<lambda>x. item_key (((nodes ?c1)(next_node ?c1 := \<lparr>item_value = v, item_key = k\<rparr>)) x))
                (evictList ?c1)"
    using None by (simp add: put_def Let_def list_keys_def fun_upd_same del: fun_upd_apply)
  also have "map (\<lambda>x. item_key (((nodes ?c1)(next_node ?c1 := \<lparr>item_value = v, item_key = k\<rparr>)) x))
                (evictList ?c1) = list_keys ?c1"
    unfolding list_keys_def using fresh by (intro map_cong) auto
  also have "list_keys ?c1 = (if capacity c \<le> int (length (list_keys c)) then butlast (list_keys c)
                      else list_keys c)"
    by (simp add: list_keys_removeOldest) (simp add: list_keys_def)
  finally show ?thesis using None lru_inv_member[OF assms, of k] by simp
qed

lemma list_keys_clear: "list_keys (clear c) = []"
  by (simp add: clear_def list_keys_def)

lemma sorted_wrt_remove1: "sorted_wrt P xs \<Longrightarrow> sorted_wrt P (remove1 x xs)"
proof (induction xs)
  case Nil
  then show ?case by simp
next
  case (Cons a xs)
  have "set (remove1 x xs) \<subseteq> set xs" by (rule set_remove1_subset)
  then show ?case using Cons by auto
qed

lemma sorted_wrt_butlast: "sorted_wrt P xs \<Longrightarrow> sorted_wrt P (butlast xs)"
  by (simp add: butlast_conv_take sorted_wrt_take)

lemma sorted_wrt_last:
  assumes "sorted_wrt P xs" "x \<in> set (butlast xs)"
  shows "P x (last xs)"
proof -
  have ne: "xs \<noteq> []" using assms(2) by auto
  then have "sorted_wrt P (butlast xs @ [last xs])" using assms(1) by simp
  then show ?thesis using assms(2) unfolding sorted_wrt_append by simp
qed

lemma recency_touch:
  assumes ord: "recency_ordered ops zs" and nk: "k \<notin> set zs"
    and t: "\<forall>x. touches op x \<longleftrightarrow> x = k"
  shows "recency_ordered (ops @ [op]) (k # zs)"
proof -
  have same: "\<And>x. x \<in> set zs \<Longrightarrow> last_use (ops @ [op]) x = last_use ops x"
    using nk t by (auto simp: last_use_snoc)
  have new: "last_use (ops @ [op]) k = Suc (length ops)" using t by (simp add: last_use_snoc)
  have below: "\<And>x. x \<in> set zs \<Longrightarrow> last_use (ops @ [op]) x < last_use (ops @ [op]) k"
    using same new last_use_le[of ops] by (simp add: less_Suc_eq_le)
  have "sorted_wrt (\<lambda>a b. last_use ops b < last_use ops a) zs"
    using ord by (simp add: recency_ordered_def)
  then have "sorted_wrt (\<lambda>a b. last_use (ops @ [op]) b < last_use (ops @ [op]) a) zs"
    by (rule sorted_wrt_mono_rel[rotated]) (simp add: same)
  then show ?thesis using below by (simp add: recency_ordered_def)
qed

lemma recency_tail: "recency_ordered ops (k # zs) \<Longrightarrow> recency_ordered ops zs"
  by (simp add: recency_ordered_def)

lemma recency_sub_remove1: "recency_ordered ops zs \<Longrightarrow> recency_ordered ops (remove1 k zs)"
  unfolding recency_ordered_def by (rule sorted_wrt_remove1)

lemma recency_sub_butlast: "recency_ordered ops zs \<Longrightarrow> recency_ordered ops (butlast zs)"
  unfolding recency_ordered_def by (rule sorted_wrt_butlast)

lemma recency_step:
  assumes inv: "lru_inv c" and ord: "recency_ordered ops (list_keys c)"
  shows "recency_ordered (ops @ [op]) (list_keys (apply_op c op))"
proof (cases op)
  case Clear
  then show ?thesis by (simp add: list_keys_clear recency_ordered_def)
next
  case (Get k)
  have t: "\<forall>x. touches op x \<longleftrightarrow> x = k" using Get by auto
  have d: "distinct (list_keys c)" using inv by (simp add: lru_inv_def)
  show ?thesis
  proof (cases "k \<in> set (list_keys c)")
    case True
    have "k \<notin> set (remove1 k (list_keys c))" using d by simp
    then have "recency_ordered (ops @ [op]) (k # remove1 k (list_keys c))"
      using recency_touch[OF recency_sub_remove1[OF ord] _ t] by blast
    then show ?thesis using Get True by (simp add: list_keys_get[OF inv])
  next
    case False
    have "recency_ordered (ops @ [op]) (k # list_keys c)"
      by (rule recency_touch[OF ord False t])
    then have "recency_ordered (ops @ [op]) (list_keys c)" by (rule recency_tail)
    then show ?thesis using Get False by (simp add: list_keys_get[OF inv])
  qed
next
  case (Put k v)
  have t: "\<forall>x. touches op x \<longleftrightarrow> x = k" using Put by auto
  have d: "distinct (list_keys c)" using inv by (simp add: lru_inv_def)
  show ?thesis
  proof (cases "k \<in> set (list_keys c)")
    case True
    have "k \<notin> set (remove1 k (list_keys c))" using d by simp
    then have "recency_ordered (ops @ [op]) (k # remove1 k (list_keys c))"
      using recency_touch[OF recency_sub_remove1[OF ord] _ t] by blast
    then show ?thesis using Put True by (simp add: list_keys_put[OF inv])
  next
    case False
    have nb: "k \<notin> set (butlast (list_keys c))" using False by (meson in_set_butlastD)
    have 1: "recency_ordered (ops @ [op]) (k # list_keys c)"
      by (rule recency_touch[OF ord False t])
    have 2: "recency_ordered (ops @ [op]) (k # butlast (list_keys c))"
      by (rule recency_touch[OF recency_sub_butlast[OF ord] nb t])
    show ?thesis using Put False 1 2 by (simp add: list_keys_put[OF inv])
  qed
qed

lemma run_ops_snoc: "run_ops c (ops @ [op]) = apply_op (run_ops c ops) op"
  by (simp add: run_ops_def)

lemma run_ops_lru_inv: "lru_inv c \<Longrightarrow> lru_inv (run_ops c ops)"
  by (induction ops rule: rev_induct) (simp_all add: run_ops_snoc lru_inv_apply_op, simp add: run_ops_def)

lemma run_ops_recency:
  "recency_ordered ops (list_keys (run_ops (newLRUCache cap) ops))"
proof (induction ops rule: rev_induct)
  case Nil
  then show ?case by (simp add: run_ops_def newLRUCache_def list_keys_def recency_ordered_def)
next
  case (snoc op ops)
  have "lru_inv (run_ops (newLRUCache cap) ops)" by (rule run_ops_lru_inv[OF lru_inv_new])
  then show ?case using snoc by (simp add: run_ops_snoc recency_step)
qed

lemma get_put: "fst (get (put c k v) k) = Some v"
  by (auto simp: get_def put_def Let_def split: option.splits)

lemma put_existing_facts:
  assumes h: "lru_inv c \<and> items c k = Some e"
  shows "evictList (put c k v) = e # remove1 e (evictList c) \<and>
      length (evictList (put c k v)) = length (evictList c) \<and>
      dom (items (put c k v)) = dom (items c) \<and>
      fst (get (put c k v) k) = Some v"
proof -
  have el: "e \<in> set (evictList c)" using h unfolding lru_inv_alt by blast
  show ?thesis
    using h el length_MoveToFront[of "evictList c" e]
    by (simp add: get_put) (simp add: put_def MoveToFront_def)
qed

lemma put_full_facts:
  assumes h: "lru_inv c \<and> 1 \<le> capacity c \<and> items c k = None \<and> capacity c \<le> int (length (evictList c))"
  shows "evictList (put c k v) = next_node c # butlast (evictList c) \<and>
      item_key (nodes c (last (evictList c))) \<in> dom (items c) \<and>
      dom (items (put c k v)) = insert k (dom (items c) - {item_key (nodes c (last (evictList c)))}) \<and>
      fst (get (put c k v) k) = Some v"
proof -
  have ne: "evictList c \<noteq> []" using h by auto
  then have "last (evictList c) \<in> set (evictList c)" by simp
  then have lastdom: "items c (item_key (nodes c (last (evictList c)))) = Some (last (evictList c))"
    using h unfolding lru_inv_alt by blast
  show ?thesis
    using h ne lastdom by (simp add: get_put) (auto simp: put_def removeOldest_def Let_def)
qed

lemma put_room_facts:
  assumes h: "items c k = None \<and> int (length (evictList c)) < capacity c"
  shows "evictList (put c k v) = next_node c # evictList c \<and>
      dom (items (put c k v)) = insert k (dom (items c)) \<and>
      fst (get (put c k v) k) = Some v"
  using h by (simp add: get_put) (simp add: put_def Let_def)

lemma put_evicts_least_recent:
  assumes cap: "1 \<le> cap"
    and s: "s = run_ops (newLRUCache cap) ops"
    and new: "items s k = None" and full: "cap \<le> int (length (evictList s))"
  shows "\<exists>victim \<in> dom (items s).
           dom (items (put s k v)) = insert k (dom (items s) - {victim}) \<and>
           (\<forall>x \<in> dom (items s). x \<noteq> victim \<longrightarrow> last_use ops victim < last_use ops x)"
proof -
  have n: "lru_inv (newLRUCache cap)" "capacity (newLRUCache cap) = cap"
    "evictList (newLRUCache cap) = []"
    by (simp_all add: lru_inv_new) (simp_all add: newLRUCache_def)
  have inv: "lru_inv s" and c: "capacity s = cap"
    using run_ops_inv[of "newLRUCache cap" ops] n cap s by simp_all
  let ?victim = "item_key (nodes s (last (evictList s)))"
  have ne: "evictList s \<noteq> []" using full cap by auto
  have F: "?victim \<in> dom (items s)"
      "dom (items (put s k v)) = insert k (dom (items s) - {?victim})"
    using put_full_facts[of s k v] inv c cap new full by simp_all
  have vl: "?victim = last (list_keys s)" using ne by (simp add: list_keys_def last_map)
  have ord: "sorted_wrt (\<lambda>a b. last_use ops b < last_use ops a) (list_keys s)"
    using run_ops_recency[of ops cap] s by (simp add: recency_ordered_def)
  have lk: "list_keys s \<noteq> []" using ne by (simp add: list_keys_def)
  have "\<forall>x \<in> dom (items s). x \<noteq> ?victim \<longrightarrow> last_use ops ?victim < last_use ops x"
  proof (intro ballI impI)
    fix x assume x: "x \<in> dom (items s)" and nv: "x \<noteq> ?victim"
    have "x \<in> set (list_keys s)" using x lru_inv_dom[OF inv] by simp
    then have "x \<in> set (butlast (list_keys s) @ [last (list_keys s)])" using lk by simp
    then have "x \<in> set (butlast (list_keys s))" using nv vl by auto
    then have "last_use ops (last (list_keys s)) < last_use ops x"
      using sorted_wrt_last[OF ord] by blast
    then show "last_use ops ?victim < last_use ops x" using vl by simp
  qed
  then show ?thesis using F by blast
qed

section \<open>Properties of all cached entries\<close>

lemma cache_all_new: "cache_all P (newLRUCache n)"
  by (simp add: cache_all_def newLRUCache_def)

lemma cache_all_clear: "cache_all P (clear c)"
  by (simp add: cache_all_def clear_def)

lemma cache_all_get: "cache_all P c \<Longrightarrow> cache_all P (snd (get c k))"
  by (cases "items c k") (simp_all add: cache_all_def get_def)

lemma cache_all_get_Some: "cache_all P c \<Longrightarrow> fst (get c k) = Some v \<Longrightarrow> P k v"
  by (cases "items c k") (auto simp: cache_all_def get_def)

lemma cache_all_removeOldest: "cache_all P c \<Longrightarrow> cache_all P (removeOldest c)"
  by (simp add: cache_all_def removeOldest_def)

lemma cache_all_put:
  assumes "cache_all P c" "P k v"
  shows "cache_all P (put c k v)"
proof (cases "items c k")
  case None
  let ?c1 = "if int (length (evictList c)) \<ge> capacity c then removeOldest c else c"
  have 1: "cache_all P ?c1" using assms(1) by (simp add: cache_all_removeOldest)
  have eq: "put c k v = ?c1\<lparr>nodes := (nodes ?c1)(next_node ?c1 := \<lparr>item_value = v, item_key = k\<rparr>),
                 evictList := next_node ?c1 # evictList ?c1,
                 items := (items ?c1)(k \<mapsto> next_node ?c1),
                 next_node := Suc (next_node ?c1)\<rparr>"
    using None by (simp add: put_def Let_def)
  show ?thesis
    unfolding eq cache_all_def
  proof (intro allI impI)
    fix k' e
    assume a: "items (?c1\<lparr>nodes := (nodes ?c1)(next_node ?c1 := \<lparr>item_value = v, item_key = k\<rparr>),
                 evictList := next_node ?c1 # evictList ?c1,
                 items := (items ?c1)(k \<mapsto> next_node ?c1),
                 next_node := Suc (next_node ?c1)\<rparr>) k' = Some e"
    show "e < next_node (?c1\<lparr>nodes := (nodes ?c1)(next_node ?c1 := \<lparr>item_value = v, item_key = k\<rparr>),
                 evictList := next_node ?c1 # evictList ?c1,
                 items := (items ?c1)(k \<mapsto> next_node ?c1),
                 next_node := Suc (next_node ?c1)\<rparr>) \<and>
          item_key (nodes (?c1\<lparr>nodes := (nodes ?c1)(next_node ?c1 := \<lparr>item_value = v, item_key = k\<rparr>),
                 evictList := next_node ?c1 # evictList ?c1,
                 items := (items ?c1)(k \<mapsto> next_node ?c1),
                 next_node := Suc (next_node ?c1)\<rparr>) e) = k' \<and>
          P k' (item_value (nodes (?c1\<lparr>nodes := (nodes ?c1)(next_node ?c1 := \<lparr>item_value = v, item_key = k\<rparr>),
                 evictList := next_node ?c1 # evictList ?c1,
                 items := (items ?c1)(k \<mapsto> next_node ?c1),
                 next_node := Suc (next_node ?c1)\<rparr>) e))"
    proof (cases "k' = k")
      case True
      then show ?thesis using a assms(2) by simp
    next
      case False
      then have "items ?c1 k' = Some e" using a by simp
      then have "e < next_node ?c1 \<and> item_key (nodes ?c1 e) = k' \<and> P k' (item_value (nodes ?c1 e))"
        using 1 unfolding cache_all_def by blast
      then show ?thesis by simp
    qed
  qed
next
  case (Some e)
  have eq: "put c k v = c\<lparr>evictList := MoveToFront (evictList c) e,
            nodes := (nodes c)(e := (nodes c e)\<lparr>item_value := v\<rparr>)\<rparr>"
    using Some by (simp add: put_def)
  have ke: "item_key (nodes c e) = k" using assms(1) Some unfolding cache_all_def by blast
  show ?thesis
    unfolding eq cache_all_def
  proof (intro allI impI)
    fix k' e'
    assume "items (c\<lparr>evictList := MoveToFront (evictList c) e,
            nodes := (nodes c)(e := (nodes c e)\<lparr>item_value := v\<rparr>)\<rparr>) k' = Some e'"
    then have i: "items c k' = Some e'" by simp
    then have old: "e' < next_node c \<and> item_key (nodes c e') = k' \<and> P k' (item_value (nodes c e'))"
      using assms(1) unfolding cache_all_def by blast
    show "e' < next_node (c\<lparr>evictList := MoveToFront (evictList c) e,
            nodes := (nodes c)(e := (nodes c e)\<lparr>item_value := v\<rparr>)\<rparr>) \<and>
          item_key (nodes (c\<lparr>evictList := MoveToFront (evictList c) e,
            nodes := (nodes c)(e := (nodes c e)\<lparr>item_value := v\<rparr>)\<rparr>) e') = k' \<and>
          P k' (item_value (nodes (c\<lparr>evictList := MoveToFront (evictList c) e,
            nodes := (nodes c)(e := (nodes c e)\<lparr>item_value := v\<rparr>)\<rparr>) e'))"
    proof (cases "e' = e")
      case True
      then have "k' = k" using old ke by simp
      then show ?thesis using True old assms(2) by simp
    next
      case False
      then show ?thesis using old by simp
    qed
  qed
qed

section \<open>Unfolding the concrete library\<close>

lemmas lib_defs = parseLine_def ascii_lib_def DefaultConfig_def parseIP_def parse_ipv4_def
  parse_octet_def digit_of_def trim_space_def is_space_def Validate_def parse_uint32_def Let_def

section \<open>Binary search\<close>

lemma search_loop_spec:
  assumes "\<forall>a b. a \<le> b \<and> b < n \<and> f a \<longrightarrow> f b"
    and "i \<le> j" "j \<le> n" "\<forall>k<i. \<not> f k" "\<forall>k. j \<le> k \<and> k < n \<longrightarrow> f k"
  shows "i \<le> search_loop f i j \<and> search_loop f i j \<le> j \<and>
         (\<forall>k < search_loop f i j. \<not> f k) \<and>
         (\<forall>k. search_loop f i j \<le> k \<and> k < n \<longrightarrow> f k)"
  using assms
proof (induction f i j rule: search_loop.induct)
  case (1 f i j)
  show ?case
  proof (cases "i < j")
    case False
    then have "i = j" using "1.prems" by simp
    then show ?thesis using "1.prems" by (simp add: search_loop.simps[of f j j])
  next
    case True
    let ?h = "(i + j) div 2"
    have h: "i \<le> ?h" "?h < j" using True by auto
    show ?thesis
    proof (cases "f ?h")
      case False
      have low: "\<forall>k<?h + 1. \<not> f k"
      proof (intro allI impI)
        fix k assume "k < ?h + 1"
        then have "k \<le> ?h" by simp
        moreover have "?h < n" using h "1.prems"(3) by simp
        ultimately show "\<not> f k" using "1.prems"(1) False by blast
      qed
      have IH: "?h + 1 \<le> search_loop f (?h + 1) j \<and> search_loop f (?h + 1) j \<le> j \<and>
         (\<forall>k < search_loop f (?h + 1) j. \<not> f k) \<and>
         (\<forall>k. search_loop f (?h + 1) j \<le> k \<and> k < n \<longrightarrow> f k)"
        using "1.IH"(1)[OF True refl False "1.prems"(1) _ "1.prems"(3) low "1.prems"(5)] h by simp
      have "search_loop f i j = search_loop f (?h + 1) j"
        using True False by (subst search_loop.simps) (simp add: Let_def)
      then show ?thesis using IH h by simp
    next
      case True
      note fh = this
      have up: "\<forall>k. ?h \<le> k \<and> k < n \<longrightarrow> f k"
        using "1.prems"(1) fh by blast
      have IH: "i \<le> search_loop f i ?h \<and> search_loop f i ?h \<le> ?h \<and>
         (\<forall>k < search_loop f i ?h. \<not> f k) \<and>
         (\<forall>k. search_loop f i ?h \<le> k \<and> k < n \<longrightarrow> f k)"
        using "1.IH"(2)[OF \<open>i < j\<close> refl _ "1.prems"(1) _ _ "1.prems"(4) up] fh h "1.prems"(3) by simp
      have "search_loop f i j = search_loop f i ?h"
        using \<open>i < j\<close> fh by (subst search_loop.simps) (simp add: Let_def)
      then show ?thesis using IH h by simp
    qed
  qed
qed

lemma sort_Search_spec:
  assumes "\<forall>a b. a \<le> b \<and> b < n \<and> f a \<longrightarrow> f b"
  shows "sort_Search n f \<le> n \<and> (\<forall>k < sort_Search n f. \<not> f k) \<and>
         (\<forall>k. sort_Search n f \<le> k \<and> k < n \<longrightarrow> f k)"
proof -
  have a: "\<forall>k<(0::nat). \<not> f k" by simp
  have b: "\<forall>k. n \<le> k \<and> k < n \<longrightarrow> f k" by auto
  have "0 \<le> search_loop f 0 n \<and> search_loop f 0 n \<le> n \<and>
         (\<forall>k < search_loop f 0 n. \<not> f k) \<and>
         (\<forall>k. search_loop f 0 n \<le> k \<and> k < n \<longrightarrow> f k)"
    by (rule search_loop_spec[OF assms le0 le_refl a b])
  then show ?thesis unfolding sort_Search_def by blast
qed

text \<open>The index form of \<open>non_overlapping\<close>.\<close>

lemma non_overlapping_nth:
  "non_overlapping rs \<longleftrightarrow> (\<forall>i. i + 1 < length rs \<longrightarrow> EndIP (rs ! i) < StartIP (rs ! (i + 1)))"
proof (induction rs rule: non_overlapping.induct)
  case (1 a b rs)
  show ?case
  proof
    assume h: "non_overlapping (a # b # rs)"
    then have ab: "EndIP a < StartIP b" and tl: "non_overlapping (b # rs)" by simp_all
    have tln: "\<And>m. m + 1 < length (b # rs) \<Longrightarrow> EndIP ((b # rs) ! m) < StartIP ((b # rs) ! (m + 1))"
      using "1.IH"[THEN iffD1, OF tl] by blast
    show "\<forall>i. i + 1 < length (a # b # rs) \<longrightarrow> EndIP ((a # b # rs) ! i) < StartIP ((a # b # rs) ! (i + 1))"
    proof (intro allI impI)
      fix i assume i: "i + 1 < length (a # b # rs)"
      show "EndIP ((a # b # rs) ! i) < StartIP ((a # b # rs) ! (i + 1))"
      proof (cases i)
        case 0
        then show ?thesis using ab by simp
      next
        case (Suc m)
        then have "m + 1 < length (b # rs)" using i by simp
        then have "EndIP ((b # rs) ! m) < StartIP ((b # rs) ! (m + 1))" by (rule tln)
        then show ?thesis using Suc by simp
      qed
    qed
  next
    assume h: "\<forall>i. i + 1 < length (a # b # rs) \<longrightarrow> EndIP ((a # b # rs) ! i) < StartIP ((a # b # rs) ! (i + 1))"
    have "0 + 1 < length (a # b # rs)" by simp
    from h[rule_format, OF this] have ab: "EndIP a < StartIP b" by simp
    have "\<forall>i. i + 1 < length (b # rs) \<longrightarrow> EndIP ((b # rs) ! i) < StartIP ((b # rs) ! (i + 1))"
    proof (intro allI impI)
      fix i assume "i + 1 < length (b # rs)"
      then have "Suc i + 1 < length (a # b # rs)" by simp
      from h[rule_format, OF this] show "EndIP ((b # rs) ! i) < StartIP ((b # rs) ! (i + 1))" by simp
    qed
    then have "non_overlapping (b # rs)" by (rule "1.IH"[THEN iffD2])
    then show "non_overlapping (a # b # rs)" using ab by simp
  qed
qed simp_all

lemma find_unique_index:
  assumes "i < length xs" "P (xs ! i)" "\<forall>j < length xs. P (xs ! j) \<longrightarrow> j = i"
  shows "find P xs = Some (xs ! i)"
proof -
  have nj: "\<forall>j<i. \<not> P (xs ! j)"
  proof (intro allI impI notI)
    fix j assume j: "j < i" and p: "P (xs ! j)"
    have "j < length xs" using j assms(1) by simp
    then have "j = i" using assms(3) p by blast
    then show False using j by simp
  qed
  have "\<exists>k<length xs. P (xs ! k) \<and> xs ! i = xs ! k \<and> (\<forall>j<k. \<not> P (xs ! j))"
    using assms(1,2) nj by (intro exI[of _ i]) simp
  then show ?thesis unfolding find_Some_iff .
qed

lemma find_none_index:
  assumes "\<forall>j < length xs. \<not> P (xs ! j)"
  shows "find P xs = None"
  unfolding find_None_iff
proof
  assume "\<exists>x. x \<in> set xs \<and> P x"
  then obtain x where x: "x \<in> set xs" "P x" by blast
  then obtain j where "j < length xs" "xs ! j = x" unfolding in_set_conv_nth by blast
  then show False using assms x(2) by blast
qed

text \<open>What the binary search of \<open>findCountryForIP\<close> computes.\<close>

lemma search_is_linear_scan:
  assumes s: "sorted_by_start rs" and n: "non_overlapping rs"
    and idx_def: "idx = sort_Search (length rs) (\<lambda>i. StartIP (rs ! i) > ipn)"
  shows "idx \<le> length rs \<and> (\<forall>k<idx. StartIP (rs ! k) \<le> ipn) \<and>
         (\<forall>k. idx \<le> k \<and> k < length rs \<longrightarrow> ipn < StartIP (rs ! k)) \<and>
         linear_scan rs ipn =
           (if idx > 0 \<and> Contains (rs ! (idx - 1)) ipn then Some (rs ! (idx - 1)) else None)"
proof -
  let ?f = "\<lambda>i. StartIP (rs ! i) > ipn"
  have srt: "\<And>a b. a \<le> b \<Longrightarrow> b < length rs \<Longrightarrow> StartIP (rs ! a) \<le> StartIP (rs ! b)"
    using s unfolding sorted_by_start_def by (simp add: sorted_iff_nth_mono)
  have mono: "\<forall>a b. a \<le> b \<and> b < length rs \<and> ?f a \<longrightarrow> ?f b"
    using srt by (meson less_le_trans)
  have sp: "idx \<le> length rs" "\<forall>k<idx. \<not> ?f k" "\<forall>k. idx \<le> k \<and> k < length rs \<longrightarrow> ?f k"
    using sort_Search_spec[OF mono] unfolding idx_def by blast+
  have lows: "\<forall>k<idx. StartIP (rs ! k) \<le> ipn" using sp(2) by (simp add: not_less)
  have adj: "\<And>i. i + 1 < length rs \<Longrightarrow> EndIP (rs ! i) < StartIP (rs ! (i + 1))"
    using n unfolding non_overlapping_nth by blast
  have uniq: "j = idx - 1 \<and> idx > 0" if j: "j < length rs" and c: "Contains (rs ! j) ipn" for j
  proof -
    have "\<not> ?f j" using c by (simp add: Contains_def not_less)
    then have jl: "j < idx" using sp(3) j by (meson not_le)
    have "\<not> j < idx - 1"
    proof
      assume lt: "j < idx - 1"
      then have "j + 1 \<le> idx - 1" "idx - 1 < length rs" using sp(1) jl by auto
      then have "StartIP (rs ! (j + 1)) \<le> StartIP (rs ! (idx - 1))" using srt by blast
      moreover have "StartIP (rs ! (idx - 1)) \<le> ipn" using lows jl by simp
      moreover have "EndIP (rs ! j) < StartIP (rs ! (j + 1))" using adj lt sp(1) by simp
      ultimately have "EndIP (rs ! j) < ipn" by simp
      then have "\<not> ipn \<le> EndIP (rs ! j)" by (simp add: not_le)
      then show False using c by (simp add: Contains_def)
    qed
    then show ?thesis using jl by simp
  qed
  have ls: "linear_scan rs ipn =
           (if idx > 0 \<and> Contains (rs ! (idx - 1)) ipn then Some (rs ! (idx - 1)) else None)"
  proof (cases "idx > 0 \<and> Contains (rs ! (idx - 1)) ipn")
    case True
    then have "idx - 1 < length rs" using sp(1) by auto
    moreover have "\<forall>j < length rs. Contains (rs ! j) ipn \<longrightarrow> j = idx - 1" using uniq by blast
    ultimately have "find (\<lambda>r. Contains r ipn) rs = Some (rs ! (idx - 1))"
      using True find_unique_index[of "idx - 1" rs "\<lambda>r. Contains r ipn"] by blast
    then show ?thesis using True by (simp add: linear_scan_def)
  next
    case False
    have "\<forall>j < length rs. \<not> Contains (rs ! j) ipn"
    proof (intro allI impI notI)
      fix j assume "j < length rs" "Contains (rs ! j) ipn"
      then have "j = idx - 1 \<and> idx > 0" using uniq by blast
      then show False using False \<open>Contains (rs ! j) ipn\<close> by simp
    qed
    then have "find (\<lambda>r. Contains r ipn) rs = None" by (rule find_none_index)
    then show ?thesis using False by (simp add: linear_scan_def)
  qed
  show ?thesis using sp(1) lows sp(3) ls by blast
qed

section \<open>Lookups keep the cache in agreement with the ranges\<close>

lemma findCountryForIP_step:
  assumes s: "sorted_by_start (ranges db)" and n: "non_overlapping (ranges db)"
    and c: "cache_all (\<lambda>k v. v = entry_for (ranges db) k) (cache db)"
  shows "ranges (snd (findCountryForIP db ipn)) = ranges db \<and>
         cache_all (\<lambda>k v. v = entry_for (ranges db) k) (cache (snd (findCountryForIP db ipn))) \<and>
         (case linear_scan (ranges db) ipn of
            Some r \<Rightarrow> fst (findCountryForIP db ipn) = Inr (Country r, Code r)
          | None \<Rightarrow> not_found (fst (findCountryForIP db ipn)))"
proof -
  obtain g c' where g: "get (cache db) ipn = (g, c')" by (cases "get (cache db) ipn")
  have c'_all: "cache_all (\<lambda>k v. v = entry_for (ranges db) k) c'"
    using cache_all_get[OF c, of ipn] g by simp
  show ?thesis
  proof (cases g)
    case (Some entry)
    have e: "entry = entry_for (ranges db) ipn"
      using cache_all_get_Some[OF c, of ipn entry] g Some by simp
    show ?thesis
      using g Some e c'_all
      by (cases "linear_scan (ranges db) ipn")
         (simp_all add: findCountryForIP_def entry_for_def not_found_def)
  next
    case None
    define idx where "idx = sort_Search (length (ranges db)) (\<lambda>i. StartIP (ranges db ! i) > ipn)"
    have ls: "linear_scan (ranges db) ipn =
           (if idx > 0 \<and> Contains (ranges db ! (idx - 1)) ipn then Some (ranges db ! (idx - 1)) else None)"
      using search_is_linear_scan[OF s n idx_def] by blast
    show ?thesis
    proof (cases "idx > 0 \<and> Contains (ranges db ! (idx - 1)) ipn")
      case True
      then have l: "linear_scan (ranges db) ipn = Some (ranges db ! (idx - 1))" using ls by simp
      have p: "cache_all (\<lambda>k v. v = entry_for (ranges db) k)
                 (put c' ipn \<lparr>country = Country (ranges db ! (idx - 1)), code = Code (ranges db ! (idx - 1)),
                     ip = ipn, found = True\<rparr>)"
        by (rule cache_all_put[OF c'_all]) (simp add: entry_for_def l)
      show ?thesis
        using g None True l p idx_def[symmetric]
        by (simp add: findCountryForIP_def Let_def)
    next
      case False
      then have l: "linear_scan (ranges db) ipn = None" using ls by simp
      have p: "cache_all (\<lambda>k v. v = entry_for (ranges db) k)
                 (put c' ipn \<lparr>country = [], code = [], ip = ipn, found = False\<rparr>)"
        by (rule cache_all_put[OF c'_all]) (simp add: entry_for_def l)
      show ?thesis
        using g None False l p idx_def[symmetric]
        by (simp add: findCountryForIP_def Let_def not_found_def)
    qed
  qed
qed

lemma lookups_keep:
  assumes "sorted_by_start (ranges db)" "non_overlapping (ranges db)"
    "cache_all (\<lambda>k v. v = entry_for (ranges db) k) (cache db)"
  shows "ranges (lookups db ips) = ranges db \<and>
         cache_all (\<lambda>k v. v = entry_for (ranges db) k) (cache (lookups db ips))"
  using assms unfolding lookups_def
proof (induction ips arbitrary: db)
  case Nil
  then show ?case by simp
next
  case (Cons a ips)
  let ?d = "snd (findCountryForIP db a)"
  have st: "ranges ?d = ranges db" "cache_all (\<lambda>k v. v = entry_for (ranges db) k) (cache ?d)"
    using findCountryForIP_step[OF Cons.prems, of a] by blast+
  have "ranges (foldl (\<lambda>d i. snd (findCountryForIP d i)) ?d ips) = ranges ?d \<and>
        cache_all (\<lambda>k v. v = entry_for (ranges ?d) k) (cache (foldl (\<lambda>d i. snd (findCountryForIP d i)) ?d ips))"
    by (rule Cons.IH) (simp_all only: st Cons.prems)
  then show ?case by (simp add: st(1))
qed

section \<open>The validators\<close>


















section \<open>Stepping through a lookup\<close>

lemma get_hit:
  "items c k = Some e \<Longrightarrow>
   get c k = (Some (item_value (nodes c e)),
              c\<lparr>evictList := MoveToFront (evictList c) e, hits := hits c + 1\<rparr>)"
  by (simp add: get_def)

lemma get_miss: "items c k = None \<Longrightarrow> get c k = (None, c\<lparr>misses := misses c + 1\<rparr>)"
  by (simp add: get_def)

lemma put_counters: "hits (put c k v) = hits c \<and> misses (put c k v) = misses c"
  by (cases "items c k") (simp_all add: put_def Let_def removeOldest_def)

lemma put_indexed:
  "\<exists>e. items (put c k v) k = Some e \<and> item_value (nodes (put c k v) e) = v"
  by (cases "items c k") (simp_all add: put_def Let_def)

lemma get_after_put:
  "get (put c k v) k =
     (Some v, (put c k v)\<lparr>evictList := MoveToFront (evictList (put c k v)) (the (items (put c k v) k)),
                          hits := hits c + 1\<rparr>)"
proof -
  obtain e where e: "items (put c k v) k = Some e" "item_value (nodes (put c k v) e) = v"
    using put_indexed by blast
  show ?thesis using get_hit[OF e(1)] e put_counters[of c k v] by simp
qed

lemma findCountryForIP_cache_only:
  "snd (findCountryForIP db ipn) = db\<lparr>cache := cache (snd (findCountryForIP db ipn))\<rparr>"
proof (cases "items (cache db) ipn")
  case None
  then show ?thesis by (simp add: findCountryForIP_def get_miss Let_def)
next
  case (Some e)
  then show ?thesis by (simp add: findCountryForIP_def get_hit)
qed

lemma findCountryForIP_hit:
  assumes "items (cache db) ipn = Some e"
  shows "findCountryForIP db ipn =
     ((if \<not> found (item_value (nodes (cache db) e)) then Inl NotFoundCachedMiss
       else Inr (country (item_value (nodes (cache db) e)), code (item_value (nodes (cache db) e)))),
      db\<lparr>cache := (cache db)\<lparr>evictList := MoveToFront (evictList (cache db)) e,
                              hits := hits (cache db) + 1\<rparr>\<rparr>)"
  using assms by (simp add: findCountryForIP_def get_hit)

lemma findCountryForIP_miss:
  assumes "items (cache db) ipn = None"
  shows "findCountryForIP db ipn =
     (fst (searched db ipn),
      db\<lparr>cache := put ((cache db)\<lparr>misses := misses (cache db) + 1\<rparr>) ipn (snd (searched db ipn))\<rparr>)"
  using assms by (simp add: findCountryForIP_def get_miss searched_def Let_def)

lemma searched_shape:
  "(fst (searched db ipn) = Inl NotFound \<and> \<not> found (snd (searched db ipn))) \<or>
   (fst (searched db ipn) = Inr (country (snd (searched db ipn)), code (snd (searched db ipn))) \<and>
    found (snd (searched db ipn)))"
  by (simp add: searched_def Let_def)

lemma findCountryForIP_mu:
  "findCountryForIP (db\<lparr>mu := m\<rparr>) ipn =
     (fst (findCountryForIP db ipn), (snd (findCountryForIP db ipn))\<lparr>mu := m\<rparr>)"
proof (cases "items (cache db) ipn")
  case None
  then show ?thesis by (simp add: findCountryForIP_miss searched_def Let_def)
next
  case (Some e)
  then show ?thesis by (simp add: findCountryForIP_hit)
qed

lemma findCountryForIP_twice:
  fixes db ipn
  defines "r1 \<equiv> fst (findCountryForIP db ipn)" and "db1 \<equiv> snd (findCountryForIP db ipn)"
  defines "r2 \<equiv> fst (findCountryForIP db1 ipn)" and "db2 \<equiv> snd (findCountryForIP db1 ipn)"
  shows "same_result r1 r2 \<and> ranges db2 = ranges db \<and>
         hits (cache db2) = hits (cache db1) + 1 \<and> misses (cache db2) = misses (cache db1) \<and>
         (r1 = Inl NotFound \<longrightarrow>
            r2 = Inl NotFoundCachedMiss \<and>
            misses (cache db1) = misses (cache db) + 1 \<and> hits (cache db1) = hits (cache db) \<and>
            (\<exists>e. items (cache db1) ipn = Some e \<and> \<not> found (item_value (nodes (cache db1) e))))"
proof (cases "items (cache db) ipn")
  case (Some e)
  have 1: "items (cache db1) ipn = Some e" "nodes (cache db1) = nodes (cache db)"
    "ranges db1 = ranges db"
    unfolding db1_def using Some by (simp_all add: findCountryForIP_hit)
  have r1: "r1 = (if \<not> found (item_value (nodes (cache db) e)) then Inl NotFoundCachedMiss
       else Inr (country (item_value (nodes (cache db) e)), code (item_value (nodes (cache db) e))))"
    unfolding r1_def using Some by (simp add: findCountryForIP_hit)
  have r2: "r2 = r1" "hits (cache db2) = hits (cache db1) + 1" "misses (cache db2) = misses (cache db1)"
    "ranges db2 = ranges db1"
    unfolding r2_def db2_def using findCountryForIP_hit[OF 1(1)] 1(2) r1 by simp_all
  have "r1 \<noteq> Inl NotFound" using r1 by simp
  then show ?thesis using r2 1(3) by (simp add: same_result_def)
next
  case None
  let ?v = "snd (searched db ipn)"
  let ?c = "put ((cache db)\<lparr>misses := misses (cache db) + 1\<rparr>) ipn ?v"
  have f1: "r1 = fst (searched db ipn)" "db1 = db\<lparr>cache := ?c\<rparr>"
    unfolding r1_def db1_def using None by (simp_all add: findCountryForIP_miss)
  obtain e where e: "items ?c ipn = Some e" "item_value (nodes ?c e) = ?v"
    using put_indexed by blast
  have c1: "cache db1 = ?c" "ranges db1 = ranges db" using f1(2) by simp_all
  have cnt: "misses (cache db1) = misses (cache db) + 1" "hits (cache db1) = hits (cache db)"
    using c1(1) put_counters[of "(cache db)\<lparr>misses := misses (cache db) + 1\<rparr>" ipn ?v] by simp_all
  have e1: "items (cache db1) ipn = Some e" "item_value (nodes (cache db1) e) = ?v"
    using e c1(1) by simp_all
  have r2: "r2 = (if \<not> found ?v then Inl NotFoundCachedMiss else Inr (country ?v, code ?v))"
    "hits (cache db2) = hits (cache db1) + 1" "misses (cache db2) = misses (cache db1)"
    "ranges db2 = ranges db1"
    unfolding r2_def db2_def using findCountryForIP_hit[OF e1(1)] e1(2) by simp_all
  have sh: "(r1 = Inl NotFound \<and> \<not> found ?v) \<or> (r1 = Inr (country ?v, code ?v) \<and> found ?v)"
    using searched_shape[of db ipn] f1(1) by simp
  have same: "same_result r1 r2" using sh r2(1) by (auto simp: same_result_def not_found_def)
  have neg: "r1 = Inl NotFound \<longrightarrow> r2 = Inl NotFoundCachedMiss \<and> \<not> found (item_value (nodes (cache db1) e))"
    using sh r2(1) e1(2) by auto
  show ?thesis using same neg r2(2,3,4) c1(2) cnt e1(1) by auto
qed

lemma initializeWithContext_done:
  "initialized db = 1 \<Longrightarrow> initializeWithContext L E db = Return (initErr db) db"
  by (simp add: initializeWithContext_def)

lemma GetCountryCodeWithContext_initialized:
  assumes "initialized db = 1" "mu db = Unlocked"
  shows "GetCountryCodeWithContext L E db s =
     (case initErr db of
        Some e \<Rightarrow> Return (Inl (InitializationFailed e)) db
      | None \<Rightarrow>
         (case parseIP L s of
            Inl e \<Rightarrow> Return (Inl (InvalidIP e)) db
          | Inr ipn \<Rightarrow> Return (map_sum id snd (fst (findCountryForIP db ipn)))
                          (snd (findCountryForIP db ipn))))"
proof -
  have u: "\<And>ipn. (snd (findCountryForIP db ipn))\<lparr>mu := Unlocked\<rparr> = snd (findCountryForIP db ipn)"
  proof -
    fix ipn
    have "mu (snd (findCountryForIP db ipn)) = Unlocked"
      using findCountryForIP_cache_only[of db ipn] assms(2)
      by (metis engine.select_convs(1) engine.surjective engine.update_convs(7))
    then show "(snd (findCountryForIP db ipn))\<lparr>mu := Unlocked\<rparr> = snd (findCountryForIP db ipn)"
      by simp
  qed
  show ?thesis
    using assms u
    by (simp add: GetCountryCodeWithContext_def initializeWithContext_done RLock_def RUnlock_def
          findCountryForIP_mu split: option.splits sum.splits)
qed

lemma same_result_map:
  "same_result a b \<Longrightarrow> same_result (map_sum id f a) (map_sum id f b)"
  by (auto simp: same_result_def not_found_def)

lemma map_sum_NotFound: "map_sum id f r = Inl e \<longleftrightarrow> r = Inl e"
  by (cases r) auto

lemma lookup_twice_range:
  assumes i: "initialized db = 1" and m: "mu db = Unlocked"
  shows "\<exists>r1 db1 r2 db2.
     GetCountryCodeWithContext L E db s = Return r1 db1 \<and>
     GetCountryCodeWithContext L E' db1 s = Return r2 db2 \<and>
     same_result r1 r2 \<and> ranges db2 = ranges db \<and>
     (initErr db = None \<and> (\<exists>ipn. parseIP L s = Inr ipn) \<longrightarrow>
        hits (cache db2) = hits (cache db1) + 1 \<and> misses (cache db2) = misses (cache db1)) \<and>
     (r1 = Inl NotFound \<longrightarrow>
        r2 = Inl NotFoundCachedMiss \<and>
        misses (cache db1) = misses (cache db) + 1 \<and> hits (cache db1) = hits (cache db) \<and>
        (\<exists>ipn e. parseIP L s = Inr ipn \<and> items (cache db1) ipn = Some e \<and>
                 \<not> found (item_value (nodes (cache db1) e))))"
proof (cases "initErr db")
  case (Some e)
  have "GetCountryCodeWithContext L E db s = Return (Inl (InitializationFailed e)) db"
    "GetCountryCodeWithContext L E' db s = Return (Inl (InitializationFailed e)) db"
    using Some by (simp_all add: GetCountryCodeWithContext_initialized[OF i m])
  then show ?thesis using Some by (simp add: same_result_def)
next
  case None
  show ?thesis
  proof (cases "parseIP L s")
    case (Inl e)
    have "GetCountryCodeWithContext L E db s = Return (Inl (InvalidIP e)) db"
      "GetCountryCodeWithContext L E' db s = Return (Inl (InvalidIP e)) db"
      using None Inl by (simp_all add: GetCountryCodeWithContext_initialized[OF i m])
    then show ?thesis using Inl by (simp add: same_result_def)
  next
    case (Inr ipn)
    let ?r1 = "fst (findCountryForIP db ipn)" and ?db1 = "snd (findCountryForIP db ipn)"
    let ?r2 = "fst (findCountryForIP ?db1 ipn)" and ?db2 = "snd (findCountryForIP ?db1 ipn)"
    have g1: "GetCountryCodeWithContext L E db s = Return (map_sum id snd ?r1) ?db1"
      using None Inr by (simp add: GetCountryCodeWithContext_initialized[OF i m])
    have "?db1 = db\<lparr>cache := cache ?db1\<rparr>" by (rule findCountryForIP_cache_only)
    then have k: "initialized ?db1 = 1" "mu ?db1 = Unlocked" "initErr ?db1 = None"
      using i m None
      by (metis engine.select_convs(2) engine.surjective engine.update_convs(7),
          metis engine.select_convs(1) engine.surjective engine.update_convs(7),
          metis engine.select_convs(3) engine.surjective engine.update_convs(7))
    have g2: "GetCountryCodeWithContext L E' ?db1 s = Return (map_sum id snd ?r2) ?db2"
      using k(3) Inr by (simp add: GetCountryCodeWithContext_initialized[OF k(1,2)])
    note T = findCountryForIP_twice[of db ipn]
    have a: "same_result (map_sum id snd ?r1) (map_sum id snd ?r2)"
      using T by (simp add: same_result_map)
    have b: "ranges ?db2 = ranges db" "hits (cache ?db2) = hits (cache ?db1) + 1"
      "misses (cache ?db2) = misses (cache ?db1)"
      using T by simp_all
    have c: "map_sum id snd ?r1 = Inl NotFound \<longrightarrow>
        map_sum id snd ?r2 = Inl NotFoundCachedMiss \<and>
        misses (cache ?db1) = misses (cache db) + 1 \<and> hits (cache ?db1) = hits (cache db) \<and>
        (\<exists>ipn e. parseIP L s = Inr ipn \<and> items (cache ?db1) ipn = Some e \<and>
                 \<not> found (item_value (nodes (cache ?db1) e)))"
      using T Inr by (auto simp: map_sum_NotFound)
    show ?thesis using g1 g2 a b c by blast
  qed
qed

section \<open>Stepping through a lookup of the exact engine\<close>

lemma Exact_findCountryForIP_cache_only:
  "snd (Exact_findCountryForIP m ipn) = m\<lparr>cache := cache (snd (Exact_findCountryForIP m ipn))\<rparr>"
proof (cases "items (cache m) ipn")
  case None
  then show ?thesis by (simp add: Exact_findCountryForIP_def get_miss Let_def split: option.splits)
next
  case (Some e)
  then show ?thesis by (simp add: Exact_findCountryForIP_def get_hit)
qed

lemma Exact_findCountryForIP_hit:
  assumes "items (cache m) ipn = Some e"
  shows "Exact_findCountryForIP m ipn =
     ((if \<not> found (item_value (nodes (cache m) e)) then Inl NotFoundCachedMiss
       else Inr (country (item_value (nodes (cache m) e)), code (item_value (nodes (cache m) e)))),
      m\<lparr>cache := (cache m)\<lparr>evictList := MoveToFront (evictList (cache m)) e,
                              hits := hits (cache m) + 1\<rparr>\<rparr>)"
  using assms by (simp add: Exact_findCountryForIP_def get_hit)

lemma Exact_findCountryForIP_miss:
  assumes "items (cache m) ipn = None"
  shows "Exact_findCountryForIP m ipn =
     (fst (Exact_searched m ipn),
      m\<lparr>cache := put ((cache m)\<lparr>misses := misses (cache m) + 1\<rparr>) ipn (snd (Exact_searched m ipn))\<rparr>)"
  using assms by (simp add: Exact_findCountryForIP_def get_miss Exact_searched_def Let_def split: option.splits)

lemma Exact_searched_shape:
  "(fst (Exact_searched m ipn) = Inl NotFound \<and> \<not> found (snd (Exact_searched m ipn))) \<or>
   (fst (Exact_searched m ipn) = Inr (country (snd (Exact_searched m ipn)), code (snd (Exact_searched m ipn))) \<and>
    found (snd (Exact_searched m ipn)))"
  by (simp add: Exact_searched_def Let_def split: option.splits)

lemma Exact_findCountryForIP_mu:
  "Exact_findCountryForIP (m\<lparr>mu := l\<rparr>) ipn =
     (fst (Exact_findCountryForIP m ipn), (snd (Exact_findCountryForIP m ipn))\<lparr>mu := l\<rparr>)"
proof (cases "items (cache m) ipn")
  case None
  then show ?thesis by (simp add: Exact_findCountryForIP_miss Exact_searched_def Let_def split: option.splits)
next
  case (Some e)
  then show ?thesis by (simp add: Exact_findCountryForIP_hit)
qed

lemma Exact_findCountryForIP_twice:
  fixes m ipn
  defines "r1 \<equiv> fst (Exact_findCountryForIP m ipn)" and "m1 \<equiv> snd (Exact_findCountryForIP m ipn)"
  defines "r2 \<equiv> fst (Exact_findCountryForIP m1 ipn)" and "m2 \<equiv> snd (Exact_findCountryForIP m1 ipn)"
  shows "same_result r1 r2 \<and> ipMap m2 = ipMap m \<and>
         hits (cache m2) = hits (cache m1) + 1 \<and> misses (cache m2) = misses (cache m1) \<and>
         (r1 = Inl NotFound \<longrightarrow>
            r2 = Inl NotFoundCachedMiss \<and>
            misses (cache m1) = misses (cache m) + 1 \<and> hits (cache m1) = hits (cache m) \<and>
            (\<exists>e. items (cache m1) ipn = Some e \<and> \<not> found (item_value (nodes (cache m1) e))))"
proof (cases "items (cache m) ipn")
  case (Some e)
  have 1: "items (cache m1) ipn = Some e" "nodes (cache m1) = nodes (cache m)"
    "ipMap m1 = ipMap m"
    unfolding m1_def using Some by (simp_all add: Exact_findCountryForIP_hit)
  have r1: "r1 = (if \<not> found (item_value (nodes (cache m) e)) then Inl NotFoundCachedMiss
       else Inr (country (item_value (nodes (cache m) e)), code (item_value (nodes (cache m) e))))"
    unfolding r1_def using Some by (simp add: Exact_findCountryForIP_hit)
  have r2: "r2 = r1" "hits (cache m2) = hits (cache m1) + 1" "misses (cache m2) = misses (cache m1)"
    "ipMap m2 = ipMap m1"
    unfolding r2_def m2_def using Exact_findCountryForIP_hit[OF 1(1)] 1(2) r1 by simp_all
  have "r1 \<noteq> Inl NotFound" using r1 by simp
  then show ?thesis using r2 1(3) by (simp add: same_result_def)
next
  case None
  let ?v = "snd (Exact_searched m ipn)"
  let ?c = "put ((cache m)\<lparr>misses := misses (cache m) + 1\<rparr>) ipn ?v"
  have f1: "r1 = fst (Exact_searched m ipn)" "m1 = m\<lparr>cache := ?c\<rparr>"
    unfolding r1_def m1_def using None by (simp_all add: Exact_findCountryForIP_miss)
  obtain e where e: "items ?c ipn = Some e" "item_value (nodes ?c e) = ?v"
    using put_indexed by blast
  have c1: "cache m1 = ?c" "ipMap m1 = ipMap m" using f1(2) by simp_all
  have cnt: "misses (cache m1) = misses (cache m) + 1" "hits (cache m1) = hits (cache m)"
    using c1(1) put_counters[of "(cache m)\<lparr>misses := misses (cache m) + 1\<rparr>" ipn ?v] by simp_all
  have e1: "items (cache m1) ipn = Some e" "item_value (nodes (cache m1) e) = ?v"
    using e c1(1) by simp_all
  have r2: "r2 = (if \<not> found ?v then Inl NotFoundCachedMiss else Inr (country ?v, code ?v))"
    "hits (cache m2) = hits (cache m1) + 1" "misses (cache m2) = misses (cache m1)"
    "ipMap m2 = ipMap m1"
    unfolding r2_def m2_def using Exact_findCountryForIP_hit[OF e1(1)] e1(2) by simp_all
  have sh: "(r1 = Inl NotFound \<and> \<not> found ?v) \<or> (r1 = Inr (country ?v, code ?v) \<and> found ?v)"
    using Exact_searched_shape[of m ipn] f1(1) by simp
  have same: "same_result r1 r2" using sh r2(1) by (auto simp: same_result_def not_found_def)
  have neg: "r1 = Inl NotFound \<longrightarrow> r2 = Inl NotFoundCachedMiss \<and> \<not> found (item_value (nodes (cache m1) e))"
    using sh r2(1) e1(2) by auto
  show ?thesis using same neg r2(2,3,4) c1(2) cnt e1(1) by auto
qed

lemma Exact_initializeWithContext_done:
  "initialized m = 1 \<Longrightarrow> Exact_initializeWithContext L E m = Return (initErr m) m"
  by (simp add: Exact_initializeWithContext_def)

lemma Exact_GetCountryCodeWithContext_initialized:
  assumes "initialized m = 1" "mu m = Unlocked"
  shows "Exact_GetCountryCodeWithContext L E m s =
     (case initErr m of
        Some e \<Rightarrow> Return (Inl (InitializationFailed e)) m
      | None \<Rightarrow>
         (case parseIP L s of
            Inl e \<Rightarrow> Return (Inl (InvalidIP e)) m
          | Inr ipn \<Rightarrow> Return (map_sum id snd (fst (Exact_findCountryForIP m ipn)))
                          (snd (Exact_findCountryForIP m ipn))))"
proof -
  have u: "\<And>ipn. (snd (Exact_findCountryForIP m ipn))\<lparr>mu := Unlocked\<rparr> = snd (Exact_findCountryForIP m ipn)"
  proof -
    fix ipn
    have "mu (snd (Exact_findCountryForIP m ipn)) = Unlocked"
      using Exact_findCountryForIP_cache_only[of m ipn] assms(2)
      by (metis engine.select_convs(1) engine.surjective engine.update_convs(7))
    then show "(snd (Exact_findCountryForIP m ipn))\<lparr>mu := Unlocked\<rparr> = snd (Exact_findCountryForIP m ipn)"
      by simp
  qed
  show ?thesis
    using assms u
    by (simp add: Exact_GetCountryCodeWithContext_def Exact_initializeWithContext_done RLock_def RUnlock_def
          Exact_findCountryForIP_mu split: option.splits sum.splits)
qed

lemma lookup_twice_exact:
  assumes i: "initialized m = 1" and u: "mu m = Unlocked"
  shows "\<exists>r1 m1 r2 m2.
     Exact_GetCountryCodeWithContext L E m s = Return r1 m1 \<and>
     Exact_GetCountryCodeWithContext L E' m1 s = Return r2 m2 \<and>
     same_result r1 r2 \<and> ipMap m2 = ipMap m \<and>
     (initErr m = None \<and> (\<exists>ipn. parseIP L s = Inr ipn) \<longrightarrow>
        hits (cache m2) = hits (cache m1) + 1 \<and> misses (cache m2) = misses (cache m1)) \<and>
     (r1 = Inl NotFound \<longrightarrow>
        r2 = Inl NotFoundCachedMiss \<and>
        misses (cache m1) = misses (cache m) + 1 \<and> hits (cache m1) = hits (cache m) \<and>
        (\<exists>ipn e. parseIP L s = Inr ipn \<and> items (cache m1) ipn = Some e \<and>
                 \<not> found (item_value (nodes (cache m1) e))))"
proof (cases "initErr m")
  case (Some e)
  have "Exact_GetCountryCodeWithContext L E m s = Return (Inl (InitializationFailed e)) m"
    "Exact_GetCountryCodeWithContext L E' m s = Return (Inl (InitializationFailed e)) m"
    using Some by (simp_all add: Exact_GetCountryCodeWithContext_initialized[OF i u])
  then show ?thesis using Some by (simp add: same_result_def)
next
  case None
  show ?thesis
  proof (cases "parseIP L s")
    case (Inl e)
    have "Exact_GetCountryCodeWithContext L E m s = Return (Inl (InvalidIP e)) m"
      "Exact_GetCountryCodeWithContext L E' m s = Return (Inl (InvalidIP e)) m"
      using None Inl by (simp_all add: Exact_GetCountryCodeWithContext_initialized[OF i u])
    then show ?thesis using Inl by (simp add: same_result_def)
  next
    case (Inr ipn)
    let ?r1 = "fst (Exact_findCountryForIP m ipn)" and ?m1 = "snd (Exact_findCountryForIP m ipn)"
    let ?r2 = "fst (Exact_findCountryForIP ?m1 ipn)" and ?m2 = "snd (Exact_findCountryForIP ?m1 ipn)"
    have g1: "Exact_GetCountryCodeWithContext L E m s = Return (map_sum id snd ?r1) ?m1"
      using None Inr by (simp add: Exact_GetCountryCodeWithContext_initialized[OF i u])
    have "?m1 = m\<lparr>cache := cache ?m1\<rparr>" by (rule Exact_findCountryForIP_cache_only)
    then have k: "initialized ?m1 = 1" "mu ?m1 = Unlocked" "initErr ?m1 = None"
      using i u None
      by (metis engine.select_convs(2) engine.surjective engine.update_convs(7),
          metis engine.select_convs(1) engine.surjective engine.update_convs(7),
          metis engine.select_convs(3) engine.surjective engine.update_convs(7))
    have g2: "Exact_GetCountryCodeWithContext L E' ?m1 s = Return (map_sum id snd ?r2) ?m2"
      using k(3) Inr by (simp add: Exact_GetCountryCodeWithContext_initialized[OF k(1,2)])
    note T = Exact_findCountryForIP_twice[of m ipn]
    have a: "same_result (map_sum id snd ?r1) (map_sum id snd ?r2)"
      using T by (simp add: same_result_map)
    have b: "ipMap ?m2 = ipMap m" "hits (cache ?m2) = hits (cache ?m1) + 1"
      "misses (cache ?m2) = misses (cache ?m1)"
      using T by simp_all
    have c: "map_sum id snd ?r1 = Inl NotFound \<longrightarrow>
        map_sum id snd ?r2 = Inl NotFoundCachedMiss \<and>
        misses (cache ?m1) = misses (cache m) + 1 \<and> hits (cache ?m1) = hits (cache m) \<and>
        (\<exists>ipn e. parseIP L s = Inr ipn \<and> items (cache ?m1) ipn = Some e \<and>
                 \<not> found (item_value (nodes (cache ?m1) e)))"
      using T Inr by (auto simp: map_sum_NotFound)
    show ?thesis using g1 g2 a b c by blast
  qed
qed

section \<open>Invariants of the range engine\<close>












lemma reload_blocks:
  "ReloadWithContext L E db =
     Blocked (if mu db = Unlocked
              then db\<lparr>mu := WriteLocked, initialized := 0, ranges := [], initErr := None,
                      cache := clear (cache db)\<rparr>
              else db)"
  by (simp add: ReloadWithContext_def initializeWithContext_def Lock_def)

lemma Exact_reload_blocks:
  "Exact_ReloadWithContext L E m =
     Blocked (if mu m = Unlocked
              then m\<lparr>mu := WriteLocked, initialized := 0, ipMap := Map.empty, initErr := None,
                      cache := clear (cache m)\<rparr>
              else m)"
  by (simp add: Exact_ReloadWithContext_def Exact_initializeWithContext_def Lock_def)




section \<open>Concrete loads\<close>

lemmas load_defs = initializeWithContext_def initialize_locked_def parseFileWithContext_def
  parseReaderWithContext_def NewIPCountryDB_def newLRUCache_def world_def good_file_def
  overlap_file_def example_lines_def Background_def Lock_def Unlock_def
  validateRanges_def validateRanges_loop.simps zero_stats_def fresh_db_def



lemma after_failed_eq:
  "GetCountryCode ascii_lib missing_world fresh_db ''8.8.8.8'' =
     Return (Inl (InitializationFailed
                    (OpenFailed (External ''open ip_to_country.csv: no such file or directory''))))
       (fresh_db\<lparr>initErr := Some (OpenFailed (External ''open ip_to_country.csv: no such file or directory''))\<rparr>)"
  by (simp add: GetCountryCode_def GetCountryCodeWithContext_def missing_world_def load_defs)

lemma after_failed_state:
  "after_failed =
     fresh_db\<lparr>initErr := Some (OpenFailed (External ''open ip_to_country.csv: no such file or directory''))\<rparr>"
  by (simp add: after_failed_def after_failed_eq)

lemma retry_load:
  "initializeWithContext ascii_lib (world (Inr good_file)) after_failed =
     Return None (after_failed\<lparr>ranges := example_ranges,
        stats := \<lparr>FileSize = 63, CacheHits = 0, CacheMisses = 0, TotalRanges = 3\<rparr>, initialized := 1\<rparr>)"
  by (simp add: after_failed_state load_defs lib_defs example_ranges_def)

lemma retry_result:
  "returned (GetCountryCode ascii_lib (world (Inr good_file)) after_failed ''8.8.8.8'') =
     Some (Inr ''US'')"
proof -
  have w: "(world (Inr good_file))\<lparr>ctx_Err := Background\<rparr> = world (Inr good_file)"
    by (simp add: world_def)
  have p: "parseIP ascii_lib ''8.8.8.8'' = Inr 134744072" by (simp add: lib_defs)
  have i: "items (cache after_failed) 134744072 = None" "mu after_failed = Unlocked"
    by (simp_all add: after_failed_state fresh_db_def NewIPCountryDB_def newLRUCache_def Let_def)
  have f: "fst (searched (after_failed\<lparr>ranges := example_ranges,
        stats := \<lparr>FileSize = 63, CacheHits = 0, CacheMisses = 0, TotalRanges = 3\<rparr>, initialized := 1,
        mu := ReadLocked 1\<rparr>) 134744072) = Inr (''US'', ''US'')"
    by (simp add: searched_def example_ranges_def sort_Search_def search_loop.simps Let_def Contains_def)
  show ?thesis
    using f i
    by (simp add: GetCountryCode_def w GetCountryCodeWithContext_def retry_load p RLock_def
          findCountryForIP_miss split_beta)
qed

lemma after_retry_state:
  "initialized after_retry = 1 \<and> mu after_retry = Unlocked \<and> ranges after_retry = example_ranges \<and>
   initErr after_retry = Some (OpenFailed (External ''open ip_to_country.csv: no such file or directory''))"
proof -
  have w: "(world (Inr good_file))\<lparr>ctx_Err := Background\<rparr> = world (Inr good_file)"
    by (simp add: world_def)
  have p: "parseIP ascii_lib ''8.8.8.8'' = Inr 134744072" by (simp add: lib_defs)
  have i: "items (cache after_failed) 134744072 = None" "mu after_failed = Unlocked"
    "initErr after_failed = Some (OpenFailed (External ''open ip_to_country.csv: no such file or directory''))"
    by (simp_all add: after_failed_state fresh_db_def NewIPCountryDB_def newLRUCache_def Let_def)
  show ?thesis
    using i
    by (simp add: after_retry_def GetCountryCode_def w GetCountryCodeWithContext_def retry_load p
          RLock_def RUnlock_def findCountryForIP_miss split_beta)
qed

lemmas exact_load_defs = Exact_initializeWithContext_def Exact_initialize_locked_def
  Exact_parseFileWithContext_def Exact_parseLine_def NewExactIPCountryMap_def newLRUCache_def
  world_def truncated_file_def two_line_file_def cancel_world_def fresh_map_def
  Lock_def Unlock_def

section \<open>Invariants of the exact engine\<close>

lemma Exact_scan_frame:
  "cache (snd (Exact_scan L ctx serr lines lineNum processed m)) = cache m \<and>
   mu (snd (Exact_scan L ctx serr lines lineNum processed m)) = mu m \<and>
   config (snd (Exact_scan L ctx serr lines lineNum processed m)) = config m \<and>
   initialized (snd (Exact_scan L ctx serr lines lineNum processed m)) = initialized m"
proof (induction lines arbitrary: lineNum processed m)
  case Nil
  show ?case by simp
next
  case (Cons tok rest)
  show ?case
  proof (cases "ctx lineNum")
    case (Some e)
    then show ?thesis by simp
  next
    case None
    note ctx = this
    show ?thesis
    proof (cases "strings_TrimSpace L tok = [] \<or> (SkipHeader (config m) \<and> Suc lineNum = 1)")
      case True
      then have "Exact_scan L ctx serr (tok # rest) lineNum processed m =
                 Exact_scan L ctx serr rest (Suc lineNum) processed m"
        using ctx by auto
      then show ?thesis using Cons.IH by simp
    next
      case False
      note nb = this
      show ?thesis
      proof (cases "Exact_parseLine L (config m) (strings_TrimSpace L tok)")
        case (Inl e)
        let ?m = "m\<lparr>parseErrors := parseErrors m @
                         [\<lparr>Content = strings_TrimSpace L tok, Err = e, Line = Suc lineNum\<rparr>]\<rparr>"
        have "Exact_scan L ctx serr (tok # rest) lineNum processed m =
                 Exact_scan L ctx serr rest (Suc lineNum) processed ?m"
          using ctx nb Inl by auto
        then show ?thesis using Cons.IH[of "Suc lineNum" processed ?m] by simp
      next
        case (Inr p)
        obtain c ipNum where p: "p = (c, ipNum)" by (cases p)
        let ?m = "m\<lparr>ipMap := (ipMap m)(ipNum \<mapsto> c)\<rparr>"
        show ?thesis
        proof (cases "MaxRanges (config m) > 0 \<and> processed + 1 \<ge> MaxRanges (config m)")
          case True
          then have "Exact_scan L ctx serr (tok # rest) lineNum processed m = (Inr None, ?m)"
            using ctx nb Inr p by auto
          then show ?thesis by simp
        next
          case False
          then have "Exact_scan L ctx serr (tok # rest) lineNum processed m =
                 Exact_scan L ctx serr rest (Suc lineNum) (processed + 1) ?m"
            using ctx nb Inr p by auto
          then show ?thesis using Cons.IH[of "Suc lineNum" "processed + 1" ?m] by simp
        qed
      qed
    qed
  qed
qed

lemma Exact_parseFileWithContext_frame:
  "cache (snd (Exact_parseFileWithContext L E m path)) = cache m \<and>
   mu (snd (Exact_parseFileWithContext L E m path)) = mu m"
proof (cases "os_Open E path")
  case (Inl e)
  then show ?thesis by (simp add: Exact_parseFileWithContext_def)
next
  case (Inr f)
  note op = this
  show ?thesis
  proof (cases "fstat f")
    case (Inl e)
    then show ?thesis using op by (simp add: Exact_parseFileWithContext_def)
  next
    case (Inr fileSize)
    note st = this
    show ?thesis
    proof (cases "MaxFileSize (config m) > 0 \<and> fileSize > MaxFileSize (config m)")
      case True
      then show ?thesis using op st by (simp add: Exact_parseFileWithContext_def)
    next
      case False
      obtain r m' where sc: "Exact_scan L (ctx_Err E) (fscan_err f) (flines f) 0 0
                          (m\<lparr>ipMap := Map.empty, parseErrors := []\<rparr>) = (r, m')"
        by (cases "Exact_scan L (ctx_Err E) (fscan_err f) (flines f) 0 0
                          (m\<lparr>ipMap := Map.empty, parseErrors := []\<rparr>)")
      have fr: "cache m' = cache m \<and> mu m' = mu m"
        using Exact_scan_frame[of L "ctx_Err E" "fscan_err f" "flines f" 0 0
                "m\<lparr>ipMap := Map.empty, parseErrors := []\<rparr>"] sc by simp
      have "snd (Exact_parseFileWithContext L E m path) = m' \<or>
            snd (Exact_parseFileWithContext L E m path) = m'\<lparr>stats := (stats m')\<lparr>FileSize := fileSize\<rparr>\<rparr>"
        using op st False sc
        by (auto simp: Exact_parseFileWithContext_def split: sum.splits option.splits)
      then show ?thesis using fr by auto
    qed
  qed
qed

lemma Exact_initialize_locked_frame:
  "cache (snd (Exact_initialize_locked L E m)) = cache m \<and>
   mu (snd (Exact_initialize_locked L E m)) = mu m"
  using Exact_parseFileWithContext_frame[of L E m "filePath m"]
  by (auto simp: Exact_initialize_locked_def split: prod.splits option.splits)

lemma Exact_initializeWithContext_ok:
  assumes "Exact_engine_ok m"
  shows "\<exists>r m'. Exact_initializeWithContext L E m = Return r m' \<and> Exact_engine_ok m'"
proof (cases "initialized m = 1")
  case True
  then show ?thesis using assms by (simp add: Exact_initializeWithContext_done)
next
  case False
  let ?d = "m\<lparr>mu := WriteLocked\<rparr>"
  have u: "mu m = Unlocked" using assms by (simp add: Exact_engine_ok_def)
  have eq: "Exact_initializeWithContext L E m =
     Return (fst (Exact_initialize_locked L E ?d)) ((snd (Exact_initialize_locked L E ?d))\<lparr>mu := Unlocked\<rparr>)"
    using u False by (simp add: Exact_initializeWithContext_def Lock_def Unlock_def split_beta)
  have "cache (snd (Exact_initialize_locked L E ?d)) = cache m"
    using Exact_initialize_locked_frame[of L E ?d] by simp
  then have "Exact_engine_ok ((snd (Exact_initialize_locked L E ?d))\<lparr>mu := Unlocked\<rparr>)"
    using assms by (simp add: Exact_engine_ok_def)
  then show ?thesis using eq by simp
qed

lemma Exact_findCountryForIP_mirror:
  assumes c: "mirrored (cache m)"
  shows "mirrored (cache (snd (Exact_findCountryForIP m ipn))) \<and>
         map_sum id fst (fst (Exact_findCountryForIP m ipn)) =
         map_sum id snd (fst (Exact_findCountryForIP m ipn))"
proof (cases "items (cache m) ipn")
  case (Some e)
  have "country (item_value (nodes (cache m) e)) = code (item_value (nodes (cache m) e))"
    using c Some unfolding mirrored_def cache_all_def by blast
  moreover have "mirrored (snd (get (cache m) ipn))"
    using c unfolding mirrored_def by (rule cache_all_get)
  ultimately show ?thesis using Some by (simp add: Exact_findCountryForIP_hit get_hit)
next
  case None
  have k: "country (snd (Exact_searched m ipn)) = code (snd (Exact_searched m ipn))"
    by (simp add: Exact_searched_def split: option.splits)
  have "mirrored (snd (get (cache m) ipn))"
    using c unfolding mirrored_def by (rule cache_all_get)
  then have "mirrored ((cache m)\<lparr>misses := misses (cache m) + 1\<rparr>)" using None by (simp add: get_miss)
  then have p: "mirrored (put ((cache m)\<lparr>misses := misses (cache m) + 1\<rparr>) ipn (snd (Exact_searched m ipn)))"
    unfolding mirrored_def using k by (rule cache_all_put)
  have "map_sum id fst (fst (Exact_searched m ipn)) = map_sum id snd (fst (Exact_searched m ipn))"
    by (simp add: Exact_searched_def split: option.splits)
  then show ?thesis using None p by (simp add: Exact_findCountryForIP_miss)
qed

lemma Exact_engine_ok_new: "Exact_engine_ok (NewExactIPCountryMap path cfgs)"
  by (simp add: Exact_engine_ok_def NewExactIPCountryMap_def Let_def mirrored_def cache_all_new)

lemma Exact_lookup_pair:
  assumes ok: "Exact_engine_ok m"
  shows "\<exists>r m'. Exact_GetCountryWithContext L E m s = Return r m' \<and>
                  Exact_GetCountryCodeWithContext L E m s = Return r m' \<and> Exact_engine_ok m'"
proof -
  obtain r0 m1 where i: "Exact_initializeWithContext L E m = Return r0 m1" and ok1: "Exact_engine_ok m1"
    using Exact_initializeWithContext_ok[OF ok, of L E] by blast
  show ?thesis
  proof (cases r0)
    case (Some e)
    then show ?thesis using i ok1
      by (simp add: Exact_GetCountryWithContext_def Exact_GetCountryCodeWithContext_def)
  next
    case None
    note r0 = this
    show ?thesis
    proof (cases "parseIP L s")
      case (Inl e)
      then show ?thesis using i ok1 r0
        by (simp add: Exact_GetCountryWithContext_def Exact_GetCountryCodeWithContext_def)
    next
      case (Inr ipn)
      let ?f = "Exact_findCountryForIP m1 ipn"
      have u: "mu m1 = Unlocked" and c: "mirrored (cache m1)"
        using ok1 by (simp_all add: Exact_engine_ok_def)
      have M: "mirrored (cache (snd ?f))"
        "map_sum id fst (fst ?f) = map_sum id snd (fst ?f)"
        using Exact_findCountryForIP_mirror[OF c, of ipn] by simp_all
      have co: "snd ?f = m1\<lparr>cache := cache (snd ?f)\<rparr>" by (rule Exact_findCountryForIP_cache_only)
      have fin: "(snd ?f)\<lparr>mu := ReadLocked 1\<rparr>\<lparr>mu := Unlocked\<rparr> = m1\<lparr>cache := cache (snd ?f)\<rparr>"
        using u by (subst co) simp
      have okf: "Exact_engine_ok (m1\<lparr>cache := cache (snd ?f)\<rparr>)"
        using u M(1) by (simp add: Exact_engine_ok_def)
      have g1: "Exact_GetCountryWithContext L E m s =
                  Return (map_sum id fst (fst ?f)) (m1\<lparr>cache := cache (snd ?f)\<rparr>)"
        using i r0 Inr u fin
        by (simp add: Exact_GetCountryWithContext_def RLock_def RUnlock_def Exact_findCountryForIP_mu)
      have g2: "Exact_GetCountryCodeWithContext L E m s =
                  Return (map_sum id snd (fst ?f)) (m1\<lparr>cache := cache (snd ?f)\<rparr>)"
        using i r0 Inr u fin
        by (simp add: Exact_GetCountryCodeWithContext_def RLock_def RUnlock_def Exact_findCountryForIP_mu)
      show ?thesis using g1 g2 M(2) okf by simp
    qed
  qed
qed

lemma Exact_reachable_ok:
  assumes "Exact_reachable L m"
  shows "Exact_engine_ok m"
  using assms
proof (induction rule: Exact_reachable.induct)
  case (new path cfgs)
  show ?case by (rule Exact_engine_ok_new)
next
  case (get_country m E s r m')
  then show ?case using Exact_lookup_pair[of m L E s] by auto
next
  case (get_code m E s r m')
  then show ?case using Exact_lookup_pair[of m L E s] by auto
next
  case (reload m E r' m')
  then show ?case by (simp add: Exact_reload_blocks)
qed

section \<open>Claims about the LRU cache\<close>

text \<open>
  Claim C6. \<open>put\<close> of a key that is already cached moves its element to the front of the
  recency list, stores the new value and leaves the number of entries and the set of
  keys as they were. \<open>put\<close> of a new key below capacity removes nothing. After any
  history of \<open>get\<close>, \<open>put\<close> and \<open>clear\<close> on a new cache, the recency list holds the keys in
  the order of their last use, a \<open>get\<close> counting as a use like a \<open>put\<close>, the most recent
  first; and \<open>put\<close> of a new key into the cache when it is full (capacity at least 1)
  removes exactly one key, the one whose last use is older than that of every other
  cached key. With capacity 2, after \<open>put\<close> of three different keys \<open>a\<close>, \<open>b\<close>, \<open>d\<close>, \<open>get a\<close>
  misses and \<open>get b\<close>, \<open>get d\<close> hit; with a \<open>get a\<close> before the third \<open>put\<close> it is \<open>b\<close> that is
  gone.
\<close>

theorem put_evict_correct:
  "(lru_inv c \<and> items c k = Some e \<longrightarrow>
      evictList (put c k v) = e # remove1 e (evictList c) \<and>
      length (evictList (put c k v)) = length (evictList c) \<and>
      dom (items (put c k v)) = dom (items c) \<and>
      fst (get (put c k v) k) = Some v) \<and>
   (lru_inv c \<and> 1 \<le> capacity c \<and> items c k = None \<and> capacity c \<le> int (length (evictList c)) \<longrightarrow>
      evictList (put c k v) = next_node c # butlast (evictList c) \<and>
      item_key (nodes c (last (evictList c))) \<in> dom (items c) \<and>
      dom (items (put c k v)) = insert k (dom (items c) - {item_key (nodes c (last (evictList c)))}) \<and>
      fst (get (put c k v) k) = Some v) \<and>
   (items c k = None \<and> int (length (evictList c)) < capacity c \<longrightarrow>
      evictList (put c k v) = next_node c # evictList c \<and>
      dom (items (put c k v)) = insert k (dom (items c)) \<and>
      fst (get (put c k v) k) = Some v) \<and>
   recency_ordered ops (list_keys (run_ops (newLRUCache cap) ops)) \<and>
   (1 \<le> cap \<and> items (run_ops (newLRUCache cap) ops) k = None \<and>
    cap \<le> int (length (evictList (run_ops (newLRUCache cap) ops))) \<longrightarrow>
      (\<exists>victim \<in> dom (items (run_ops (newLRUCache cap) ops)).
         dom (items (put (run_ops (newLRUCache cap) ops) k v)) =
           insert k (dom (items (run_ops (newLRUCache cap) ops)) - {victim}) \<and>
         (\<forall>x \<in> dom (items (run_ops (newLRUCache cap) ops)).
            x \<noteq> victim \<longrightarrow> last_use ops victim < last_use ops x))) \<and>
   (a \<noteq> b \<and> a \<noteq> d \<and> b \<noteq> d \<longrightarrow>
      (let s0 = put (put (put (newLRUCache 2) a va) b vb) d vd;
           (ra, s1) = get s0 a; (rb, s2) = get s1 b; (rd, s3) = get s2 d
       in ra = None \<and> rb = Some vb \<and> rd = Some vd) \<and>
      (let s0 = put (snd (get (put (put (newLRUCache 2) a va) b vb) a)) d vd;
           (ra, s1) = get s0 a; (rb, s2) = get s1 b; (rd, s3) = get s2 d
       in ra = Some va \<and> rb = None \<and> rd = Some vd))"
proof -
  have scenario: "(let s0 = put (put (put (newLRUCache 2) a va) b vb) d vd;
           (ra, s1) = get s0 a; (rb, s2) = get s1 b; (rd, s3) = get s2 d
       in ra = None \<and> rb = Some vb \<and> rd = Some vd) \<and>
      (let s0 = put (snd (get (put (put (newLRUCache 2) a va) b vb) a)) d vd;
           (ra, s1) = get s0 a; (rb, s2) = get s1 b; (rd, s3) = get s2 d
       in ra = Some va \<and> rb = None \<and> rd = Some vd)"
    if "a \<noteq> b \<and> a \<noteq> d \<and> b \<noteq> d"
    using that
    by (auto simp: newLRUCache_def put_def get_def removeOldest_def MoveToFront_def Let_def)
  have lru: "\<exists>victim \<in> dom (items (run_ops (newLRUCache cap) ops)).
         dom (items (put (run_ops (newLRUCache cap) ops) k v)) =
           insert k (dom (items (run_ops (newLRUCache cap) ops)) - {victim}) \<and>
         (\<forall>x \<in> dom (items (run_ops (newLRUCache cap) ops)).
            x \<noteq> victim \<longrightarrow> last_use ops victim < last_use ops x)"
    if "1 \<le> cap \<and> items (run_ops (newLRUCache cap) ops) k = None \<and>
        cap \<le> int (length (evictList (run_ops (newLRUCache cap) ops)))"
    using that put_evicts_least_recent[of cap "run_ops (newLRUCache cap) ops" ops k v] by blast
  note A = put_existing_facts[of c k e v] and B = put_full_facts[of c k v]
    and C = put_room_facts[of c k v] and D = run_ops_recency[of ops cap]
  show ?thesis
    apply (intro conjI impI)
    using A apply blast
    using A apply blast
    using A apply blast
    using A apply blast
    using B apply blast
    using B apply blast
    using B apply blast
    using B apply blast
    using C apply blast
    using C apply blast
    using C apply blast
    using D apply blast
    using lru apply blast
    using scenario apply blast
    using scenario apply blast
    done
qed

theorem put_evict_correct_witness:
  "lru_inv (put (put (newLRUCache 2) 1 au) 2 au) \<and>
   items (put (put (newLRUCache 2) 1 au) 2 au) 1 = Some 0 \<and>
   evictList (put (put (put (newLRUCache 2) 1 au) 2 au) 1 zero_entry) = [0, 1] \<and>
   fst (get (put (put (put (newLRUCache 2) 1 au) 2 au) 1 zero_entry) 1) = Some zero_entry \<and>
   items (put (put (newLRUCache 2) 1 au) 2 au) 3 = None \<and>
   capacity (put (put (newLRUCache 2) 1 au) 2 au) \<le> int (length (evictList (put (put (newLRUCache 2) 1 au) 2 au))) \<and>
   evictList (put (put (put (newLRUCache 2) 1 au) 2 au) 3 au) = [2, 1] \<and>
   dom (items (put (put (put (newLRUCache 2) 1 au) 2 au) 3 au)) = {2, 3} \<and>
   int (length (evictList (newLRUCache 2))) < capacity (newLRUCache 2) \<and>
   evictList (put (newLRUCache 2) 1 au) = [0] \<and>
   (1::int) \<le> 2 \<and>
   items (run_ops (newLRUCache 2) [Put 1 au, Put 2 au, Get 1]) 3 = None \<and>
   (2::int) \<le> int (length (evictList (run_ops (newLRUCache 2) [Put 1 au, Put 2 au, Get 1]))) \<and>
   list_keys (run_ops (newLRUCache 2) [Put 1 au, Put 2 au, Get 1]) = [1, 2] \<and>
   last_use [Put 1 au, Put 2 au, Get 1] 1 = 3 \<and> last_use [Put 1 au, Put 2 au, Get 1] 2 = 2 \<and>
   dom (items (put (run_ops (newLRUCache 2) [Put 1 au, Put 2 au, Get 1]) 3 au)) = {1, 3} \<and>
   (let s0 = put (put (put (newLRUCache 2) 1 au) 2 au) 3 au;
        (ra, s1) = get s0 1; (rb, s2) = get s1 2; (rd, s3) = get s2 3
    in ra = None \<and> rb = Some au \<and> rd = Some au) \<and>
   (let s0 = put (snd (get (put (put (newLRUCache 2) 1 au) 2 au) 1)) 3 au;
        (ra, s1) = get s0 1; (rb, s2) = get s1 2; (rd, s3) = get s2 3
    in ra = Some au \<and> rb = None \<and> rd = Some au)"
proof -
  let ?c = "put (put (newLRUCache 2) 1 au) 2 au"
  let ?ops = "[Put 1 au, Put 2 au, Get 1]"
  let ?s = "run_ops (newLRUCache 2) ?ops"
  have inv: "lru_inv ?c" by (intro lru_inv_put lru_inv_new)
  have c: "items ?c 1 = Some 0" "items ?c 3 = None" "capacity ?c = 2" "evictList ?c = [1, 0]"
    "next_node ?c = 2" "item_key (nodes ?c 0) = 1" "dom (items ?c) = {1, 2}"
    by (auto simp: newLRUCache_def put_def Let_def)
  have n: "items (newLRUCache 2) 1 = None" "evictList (newLRUCache 2) = []"
    "capacity (newLRUCache 2) = 2" "next_node (newLRUCache 2) = 0"
    by (simp_all add: newLRUCache_def)
  have s: "items ?s 3 = None" "evictList ?s = [0, 1]" "list_keys ?s = [1, 2]"
    "dom (items ?s) = {1, 2}"
    by (auto simp: run_ops_def newLRUCache_def put_def get_def MoveToFront_def list_keys_def Let_def)
  have lu: "last_use ?ops 1 = 3" "last_use ?ops 2 = 2"
    by (simp_all add: last_use_def)
  have d: "(1::u32) \<noteq> 2 \<and> (1::u32) \<noteq> 3 \<and> (2::u32) \<noteq> 3" by simp
  note T1 = put_evict_correct [of ?c 1 0 zero_entry ?ops 2 1 2 3 au au au]
  note T2 = put_evict_correct [of ?c 3 0 au ?ops 2 1 2 3 au au au]
  note T3 = put_evict_correct [of "newLRUCache 2" 1 0 au ?ops 2 1 2 3 au au au]
  have "evictList (put ?c 1 zero_entry) = 0 # remove1 0 (evictList ?c) \<and>
        length (evictList (put ?c 1 zero_entry)) = length (evictList ?c) \<and>
        dom (items (put ?c 1 zero_entry)) = dom (items ?c) \<and>
        fst (get (put ?c 1 zero_entry) 1) = Some zero_entry"
    using T1[THEN conjunct1] inv c(1) by blast
  then have f1: "evictList (put ?c 1 zero_entry) = [0, 1]"
    and f2: "fst (get (put ?c 1 zero_entry) 1) = Some zero_entry"
    using c(4) by simp_all
  have cf: "capacity ?c \<le> int (length (evictList ?c))" using c(3,4) by simp
  have "(1::int) \<le> capacity ?c" using c(3) by simp
  then have "evictList (put ?c 3 au) = next_node ?c # butlast (evictList ?c) \<and>
      item_key (nodes ?c (last (evictList ?c))) \<in> dom (items ?c) \<and>
      dom (items (put ?c 3 au)) = insert 3 (dom (items ?c) - {item_key (nodes ?c (last (evictList ?c)))}) \<and>
      fst (get (put ?c 3 au) 3) = Some au"
    using T2[THEN conjunct2, THEN conjunct1] inv c(2) cf by blast
  then have f3: "evictList (put ?c 3 au) = [2, 1]" and f4: "dom (items (put ?c 3 au)) = {2, 3}"
    using c(4,5,6,7) by auto
  have rf: "int (length (evictList (newLRUCache 2))) < capacity (newLRUCache 2)"
    using n(2,3) by simp
  then have "evictList (put (newLRUCache 2) 1 au) = next_node (newLRUCache 2) # evictList (newLRUCache 2) \<and>
      dom (items (put (newLRUCache 2) 1 au)) = insert 1 (dom (items (newLRUCache 2))) \<and>
      fst (get (put (newLRUCache 2) 1 au) 1) = Some au"
    using T3[THEN conjunct2, THEN conjunct2, THEN conjunct1] n(1) by blast
  then have f5: "evictList (put (newLRUCache 2) 1 au) = [0]" using n(2,4) by simp
  have full: "(2::int) \<le> int (length (evictList ?s))" using s(2) by simp
  have one: "(1::int) \<le> 2" by simp
  have "\<exists>victim \<in> dom (items ?s).
         dom (items (put ?s 3 au)) = insert 3 (dom (items ?s) - {victim}) \<and>
         (\<forall>x \<in> dom (items ?s). x \<noteq> victim \<longrightarrow> last_use ?ops victim < last_use ?ops x)"
    using T2[THEN conjunct2, THEN conjunct2, THEN conjunct2, THEN conjunct2, THEN conjunct1]
      one s(1) full by blast
  then obtain victim where v: "victim \<in> dom (items ?s)"
    "dom (items (put ?s 3 au)) = insert 3 (dom (items ?s) - {victim})"
    "\<forall>x \<in> dom (items ?s). x \<noteq> victim \<longrightarrow> last_use ?ops victim < last_use ?ops x"
    by blast
  have v12: "victim = 1 \<or> victim = 2" using v(1) s(4) by auto
  have "victim \<noteq> 1"
  proof
    assume "victim = 1"
    moreover have "(2::u32) \<in> dom (items ?s)" using s(4) by simp
    ultimately have "last_use ?ops 1 < last_use ?ops 2" using v(3) by auto
    then show False using lu by simp
  qed
  then have "victim = 2" using v12 by simp
  then have E: "dom (items (put ?s 3 au)) = {1, 3}" using v(2) s(4) by auto
  have sc: "(let s0 = put (put (put (newLRUCache 2) 1 au) 2 au) 3 au;
        (ra, s1) = get s0 1; (rb, s2) = get s1 2; (rd, s3) = get s2 3
    in ra = None \<and> rb = Some au \<and> rd = Some au) \<and>
   (let s0 = put (snd (get (put (put (newLRUCache 2) 1 au) 2 au) 1)) 3 au;
        (ra, s1) = get s0 1; (rb, s2) = get s1 2; (rd, s3) = get s2 3
    in ra = Some au \<and> rb = None \<and> rd = Some au)"
    using T1[THEN conjunct2, THEN conjunct2, THEN conjunct2, THEN conjunct2, THEN conjunct2] d
    by blast
  show ?thesis
    using inv c(1) f1 f2 c(2) cf f3 f4 rf f5 one s(1) full s(3) lu E sc
    by blast
qed

text \<open>
  Claim C10. A cache built by \<open>newLRUCache\<close> with capacity at least 1 holds, after any
  finite sequence of \<open>get\<close>, \<open>put\<close> and \<open>clear\<close>, at most \<open>capacity\<close> entries, in the list
  and in the index, and the keys of the index are exactly the keys of the listed
  elements.
\<close>

theorem lru_invariant:
  assumes "1 \<le> cap"
  shows "int (length (evictList (run_ops (newLRUCache cap) ops))) \<le> cap \<and>
         int (card (dom (items (run_ops (newLRUCache cap) ops)))) \<le> cap \<and>
         dom (items (run_ops (newLRUCache cap) ops)) = set (list_keys (run_ops (newLRUCache cap) ops))"
proof -
  have "lru_inv (newLRUCache cap)" by (rule lru_inv_new)
  moreover have "capacity (newLRUCache cap) = cap" "evictList (newLRUCache cap) = []"
    by (simp_all add: newLRUCache_def)
  ultimately have *: "lru_inv (run_ops (newLRUCache cap) ops) \<and>
      int (length (evictList (run_ops (newLRUCache cap) ops))) \<le> cap"
    using run_ops_inv[of "newLRUCache cap" ops] assms by simp
  then show ?thesis using lru_inv_dom[of "run_ops (newLRUCache cap) ops"]
      lru_inv_card[of "run_ops (newLRUCache cap) ops"] by simp
qed

theorem lru_invariant_witness:
  "(1::int) \<le> 2 \<and>
   int (length (evictList (run_ops (newLRUCache 2)
      [Put 1 zero_entry, Put 2 zero_entry, Put 3 zero_entry, Get 1, Get 2, Clear, Put 4 zero_entry]))) \<le> 2 \<and>
   dom (items (run_ops (newLRUCache 2)
      [Put 1 zero_entry, Put 2 zero_entry, Put 3 zero_entry, Get 1, Get 2, Clear, Put 4 zero_entry])) = {4}"
  using lru_invariant [of 2 "[Put 1 zero_entry, Put 2 zero_entry, Put 3 zero_entry, Get 1, Get 2, Clear, Put 4 zero_entry]"]
  by (simp add: run_ops_def newLRUCache_def put_def get_def removeOldest_def clear_def list_keys_def MoveToFront_def Let_def)

section \<open>Claims about the range lookup\<close>

text \<open>
  Claim C1. For a range collection sorted by start whose adjacent ranges do not
  overlap, committed with an empty cache, every lookup made after any run of earlier
  lookups returns what a linear scan returns: the country and code of the range
  containing the address, or not-found when no range contains it. The index computed
  by the binary search is the number of ranges starting at or below the address, so
  the range before it is the last one with \<open>StartIP \<le> ip\<close>, and the scan's answer is that
  range if it contains the address.
\<close>

theorem lookup_matches_linear_scan:
  assumes "sorted_by_start (ranges db)" and "non_overlapping (ranges db)"
    and "items (cache db) = Map.empty"
  shows "(case linear_scan (ranges db) ipn of
            Some r \<Rightarrow> fst (findCountryForIP (lookups db ips) ipn) = Inr (Country r, Code r)
          | None \<Rightarrow> not_found (fst (findCountryForIP (lookups db ips) ipn))) \<and>
         (let idx = sort_Search (length (ranges db)) (\<lambda>i. StartIP (ranges db ! i) > ipn) in
            idx \<le> length (ranges db) \<and>
            (\<forall>k<idx. StartIP (ranges db ! k) \<le> ipn) \<and>
            (\<forall>k. idx \<le> k \<and> k < length (ranges db) \<longrightarrow> ipn < StartIP (ranges db ! k)) \<and>
            linear_scan (ranges db) ipn =
              (if idx > 0 \<and> Contains (ranges db ! (idx - 1)) ipn
               then Some (ranges db ! (idx - 1)) else None))"
proof -
  have c: "cache_all (\<lambda>k v. v = entry_for (ranges db) k) (cache db)"
    using assms(3) by (simp add: cache_all_def)
  let ?d = "lookups db ips"
  have k: "ranges ?d = ranges db" "cache_all (\<lambda>k v. v = entry_for (ranges db) k) (cache ?d)"
    using lookups_keep[OF assms(1,2) c, of ips] by blast+
  have "case linear_scan (ranges ?d) ipn of
            Some r \<Rightarrow> fst (findCountryForIP ?d ipn) = Inr (Country r, Code r)
          | None \<Rightarrow> not_found (fst (findCountryForIP ?d ipn))"
    using findCountryForIP_step[of ?d ipn] assms(1,2) k by simp
  then have 1: "case linear_scan (ranges db) ipn of
            Some r \<Rightarrow> fst (findCountryForIP ?d ipn) = Inr (Country r, Code r)
          | None \<Rightarrow> not_found (fst (findCountryForIP ?d ipn))"
    by (simp only: k(1))
  have 2: "\<And>idx. idx = sort_Search (length (ranges db)) (\<lambda>i. StartIP (ranges db ! i) > ipn) \<Longrightarrow>
            idx \<le> length (ranges db) \<and>
            (\<forall>k<idx. StartIP (ranges db ! k) \<le> ipn) \<and>
            (\<forall>k. idx \<le> k \<and> k < length (ranges db) \<longrightarrow> ipn < StartIP (ranges db ! k)) \<and>
            linear_scan (ranges db) ipn =
              (if idx > 0 \<and> Contains (ranges db ! (idx - 1)) ipn
               then Some (ranges db ! (idx - 1)) else None)"
    by (rule search_is_linear_scan[OF assms(1,2)])
  show ?thesis unfolding Let_def using 1 2[OF refl] by blast
qed

theorem lookup_matches_linear_scan_witness:
  "sorted_by_start (ranges example_db) \<and> non_overlapping (ranges example_db) \<and>
   items (cache example_db) = Map.empty \<and>
   fst (findCountryForIP (lookups example_db [16777487, 151587081]) 134744072) = Inr (''US'', ''US'') \<and>
   not_found (fst (findCountryForIP (lookups example_db [16777487, 151587081]) 151587081)) \<and>
   sort_Search (length (ranges example_db)) (\<lambda>i. StartIP (ranges example_db ! i) > 134744072) \<le> 3"
proof -
  have h: "sorted_by_start (ranges example_db)" "non_overlapping (ranges example_db)"
    "items (cache example_db) = Map.empty"
    by (simp_all add: example_db_def example_ranges_def sorted_by_start_def NewIPCountryDB_def
          newLRUCache_def Let_def)
  have us: "linear_scan (ranges example_db) 134744072 =
      Some \<lparr>Country = ''US'', Code = ''US'', StartIP = 134744064, EndIP = 134744319\<rparr>"
    and gap: "linear_scan (ranges example_db) 151587081 = None"
    and len: "length (ranges example_db) = 3"
    by (simp_all add: example_db_def example_ranges_def linear_scan_def Contains_def)
  show ?thesis
    using lookup_matches_linear_scan [OF h, where ipn = 134744072 and ips = "[16777487, 151587081]"]
      lookup_matches_linear_scan [OF h, where ipn = 151587081 and ips = "[16777487, 151587081]"]
      h us gap len
    by (simp add: Let_def)
qed

section \<open>Claims about the range validators\<close>




section \<open>Claims about repeated lookups\<close>

text \<open>
  Claim C7. On an initialized engine (range or exact), the same lookup made twice
  returns and gives the same result, a not-found being a not-found both times; the
  dataset is untouched. When the lookup reaches the cache (no stored initialization
  error, a well-formed address) the second call is a cache hit: the hit counter grows
  by one and the miss counter stays. When the first call misses the cache and finds
  nothing (the uncached not-found error), it counts one miss and no hit and leaves a
  cache entry with \<open>found = false\<close> under the address, and the second call answers with
  the cached-miss error.
\<close>

theorem cache_transparency:
  "(initialized db = 1 \<and> mu db = Unlocked \<longrightarrow>
     (\<exists>r1 db1 r2 db2.
        GetCountryCodeWithContext L E db s = Return r1 db1 \<and>
        GetCountryCodeWithContext L E' db1 s = Return r2 db2 \<and>
        same_result r1 r2 \<and> ranges db2 = ranges db \<and>
        (initErr db = None \<and> (\<exists>ipn. parseIP L s = Inr ipn) \<longrightarrow>
           hits (cache db2) = hits (cache db1) + 1 \<and> misses (cache db2) = misses (cache db1)) \<and>
        (r1 = Inl NotFound \<longrightarrow>
           r2 = Inl NotFoundCachedMiss \<and>
           misses (cache db1) = misses (cache db) + 1 \<and> hits (cache db1) = hits (cache db) \<and>
           (\<exists>ipn e. parseIP L s = Inr ipn \<and> items (cache db1) ipn = Some e \<and>
                    \<not> found (item_value (nodes (cache db1) e)))))) \<and>
   (initialized m = 1 \<and> mu m = Unlocked \<longrightarrow>
     (\<exists>r1 m1 r2 m2.
        Exact_GetCountryCodeWithContext L E m s = Return r1 m1 \<and>
        Exact_GetCountryCodeWithContext L E' m1 s = Return r2 m2 \<and>
        same_result r1 r2 \<and> ipMap m2 = ipMap m \<and>
        (initErr m = None \<and> (\<exists>ipn. parseIP L s = Inr ipn) \<longrightarrow>
           hits (cache m2) = hits (cache m1) + 1 \<and> misses (cache m2) = misses (cache m1)) \<and>
        (r1 = Inl NotFound \<longrightarrow>
           r2 = Inl NotFoundCachedMiss \<and>
           misses (cache m1) = misses (cache m) + 1 \<and> hits (cache m1) = hits (cache m) \<and>
           (\<exists>ipn e. parseIP L s = Inr ipn \<and> items (cache m1) ipn = Some e \<and>
                    \<not> found (item_value (nodes (cache m1) e))))))"
proof (rule conjI; rule impI)
  assume "initialized db = 1 \<and> mu db = Unlocked"
  then have "initialized db = 1" "mu db = Unlocked" by simp_all
  then show "\<exists>r1 db1 r2 db2.
        GetCountryCodeWithContext L E db s = Return r1 db1 \<and>
        GetCountryCodeWithContext L E' db1 s = Return r2 db2 \<and>
        same_result r1 r2 \<and> ranges db2 = ranges db \<and>
        (initErr db = None \<and> (\<exists>ipn. parseIP L s = Inr ipn) \<longrightarrow>
           hits (cache db2) = hits (cache db1) + 1 \<and> misses (cache db2) = misses (cache db1)) \<and>
        (r1 = Inl NotFound \<longrightarrow>
           r2 = Inl NotFoundCachedMiss \<and>
           misses (cache db1) = misses (cache db) + 1 \<and> hits (cache db1) = hits (cache db) \<and>
           (\<exists>ipn e. parseIP L s = Inr ipn \<and> items (cache db1) ipn = Some e \<and>
                    \<not> found (item_value (nodes (cache db1) e))))"
    by (rule lookup_twice_range)
next
  assume "initialized m = 1 \<and> mu m = Unlocked"
  then have "initialized m = 1" "mu m = Unlocked" by simp_all
  then show "\<exists>r1 m1 r2 m2.
        Exact_GetCountryCodeWithContext L E m s = Return r1 m1 \<and>
        Exact_GetCountryCodeWithContext L E' m1 s = Return r2 m2 \<and>
        same_result r1 r2 \<and> ipMap m2 = ipMap m \<and>
        (initErr m = None \<and> (\<exists>ipn. parseIP L s = Inr ipn) \<longrightarrow>
           hits (cache m2) = hits (cache m1) + 1 \<and> misses (cache m2) = misses (cache m1)) \<and>
        (r1 = Inl NotFound \<longrightarrow>
           r2 = Inl NotFoundCachedMiss \<and>
           misses (cache m1) = misses (cache m) + 1 \<and> hits (cache m1) = hits (cache m) \<and>
           (\<exists>ipn e. parseIP L s = Inr ipn \<and> items (cache m1) ipn = Some e \<and>
                    \<not> found (item_value (nodes (cache m1) e))))"
    by (rule lookup_twice_exact)
qed

theorem cache_transparency_witness:
  "initialized example_db = 1 \<and> mu example_db = Unlocked \<and>
   initialized example_map = 1 \<and> mu example_map = Unlocked \<and>
   (\<exists>db1 db2.
      GetCountryCodeWithContext ascii_lib (world (Inr good_file)) example_db ''9.9.9.9'' =
        Return (Inl NotFound) db1 \<and>
      GetCountryCodeWithContext ascii_lib (world (Inr good_file)) db1 ''9.9.9.9'' =
        Return (Inl NotFoundCachedMiss) db2 \<and>
      misses (cache db1) = 1 \<and> hits (cache db1) = 0 \<and>
      misses (cache db2) = 1 \<and> hits (cache db2) = 1) \<and>
   (\<exists>m1 m2.
      Exact_GetCountryCodeWithContext ascii_lib (world (Inr good_file)) example_map ''9.9.9.9'' =
        Return (Inl NotFound) m1 \<and>
      Exact_GetCountryCodeWithContext ascii_lib (world (Inr good_file)) m1 ''9.9.9.9'' =
        Return (Inl NotFoundCachedMiss) m2 \<and>
      misses (cache m1) = 1 \<and> hits (cache m1) = 0 \<and>
      misses (cache m2) = 1 \<and> hits (cache m2) = 1)"
proof -
  have h: "initialized example_db = 1 \<and> mu example_db = Unlocked"
    and c: "hits (cache example_db) = 0" "misses (cache example_db) = 0"
    by (simp_all add: example_db_def NewIPCountryDB_def newLRUCache_def Let_def)
  have hx: "initialized example_map = 1 \<and> mu example_map = Unlocked"
    and cx: "hits (cache example_map) = 0" "misses (cache example_map) = 0"
    by (simp_all add: example_map_def NewExactIPCountryMap_def newLRUCache_def Let_def)
  have p: "parseIP ascii_lib ''9.9.9.9'' = Inr 151587081" by (simp add: lib_defs)
  have first: "fst (findCountryForIP example_db 151587081) = Inl NotFound"
    by (simp add: findCountryForIP_def get_def example_db_def example_ranges_def NewIPCountryDB_def
          newLRUCache_def Let_def sort_Search_def search_loop.simps Contains_def)
  have firstx: "fst (Exact_findCountryForIP example_map 151587081) = Inl NotFound"
    by (simp add: Exact_findCountryForIP_def get_def example_map_def NewExactIPCountryMap_def
          newLRUCache_def Let_def)
  have e: "initErr example_db = None" "initErr example_map = None"
    by (simp_all add: example_db_def NewIPCountryDB_def example_map_def NewExactIPCountryMap_def Let_def)
  have g: "returned (GetCountryCodeWithContext ascii_lib (world (Inr good_file)) example_db ''9.9.9.9'')
            = Some (Inl NotFound)"
    using h e p first by (simp add: GetCountryCodeWithContext_initialized)
  have gx: "returned (Exact_GetCountryCodeWithContext ascii_lib (world (Inr good_file)) example_map ''9.9.9.9'')
            = Some (Inl NotFound)"
    using hx e p firstx by (simp add: Exact_GetCountryCodeWithContext_initialized)
  from cache_transparency [of example_db ascii_lib "world (Inr good_file)" "''9.9.9.9''"
        "world (Inr good_file)" example_map] h hx
  obtain r1 db1 r2 db2 r1x m1 r2x m2 where
    R: "GetCountryCodeWithContext ascii_lib (world (Inr good_file)) example_db ''9.9.9.9'' = Return r1 db1"
       "GetCountryCodeWithContext ascii_lib (world (Inr good_file)) db1 ''9.9.9.9'' = Return r2 db2"
       "initErr example_db = None \<and> (\<exists>ipn. parseIP ascii_lib ''9.9.9.9'' = Inr ipn) \<longrightarrow>
           hits (cache db2) = hits (cache db1) + 1 \<and> misses (cache db2) = misses (cache db1)"
       "r1 = Inl NotFound \<longrightarrow> r2 = Inl NotFoundCachedMiss \<and>
           misses (cache db1) = misses (cache example_db) + 1 \<and> hits (cache db1) = hits (cache example_db)"
    and X: "Exact_GetCountryCodeWithContext ascii_lib (world (Inr good_file)) example_map ''9.9.9.9'' = Return r1x m1"
       "Exact_GetCountryCodeWithContext ascii_lib (world (Inr good_file)) m1 ''9.9.9.9'' = Return r2x m2"
       "initErr example_map = None \<and> (\<exists>ipn. parseIP ascii_lib ''9.9.9.9'' = Inr ipn) \<longrightarrow>
           hits (cache m2) = hits (cache m1) + 1 \<and> misses (cache m2) = misses (cache m1)"
       "r1x = Inl NotFound \<longrightarrow> r2x = Inl NotFoundCachedMiss \<and>
           misses (cache m1) = misses (cache example_map) + 1 \<and> hits (cache m1) = hits (cache example_map)"
    by blast
  have r1: "r1 = Inl NotFound" using g R(1) by simp
  have r1x: "r1x = Inl NotFound" using gx X(1) by simp
  have A: "\<exists>db1 db2.
      GetCountryCodeWithContext ascii_lib (world (Inr good_file)) example_db ''9.9.9.9'' =
        Return (Inl NotFound) db1 \<and>
      GetCountryCodeWithContext ascii_lib (world (Inr good_file)) db1 ''9.9.9.9'' =
        Return (Inl NotFoundCachedMiss) db2 \<and>
      misses (cache db1) = 1 \<and> hits (cache db1) = 0 \<and>
      misses (cache db2) = 1 \<and> hits (cache db2) = 1"
    using R r1 e(1) p c by (intro exI[of _ db1] exI[of _ db2]) simp
  have B: "\<exists>m1 m2.
      Exact_GetCountryCodeWithContext ascii_lib (world (Inr good_file)) example_map ''9.9.9.9'' =
        Return (Inl NotFound) m1 \<and>
      Exact_GetCountryCodeWithContext ascii_lib (world (Inr good_file)) m1 ''9.9.9.9'' =
        Return (Inl NotFoundCachedMiss) m2 \<and>
      misses (cache m1) = 1 \<and> hits (cache m1) = 0 \<and>
      misses (cache m2) = 1 \<and> hits (cache m2) = 1"
    using X r1x e(2) p cx by (intro exI[of _ m1] exI[of _ m2]) simp
  show ?thesis using h hx A B by blast
qed

section \<open>Claims about reload\<close>

text \<open>
  Claim C2 fails on the code. \<open>ReloadWithContext\<close> takes \<open>db.mu\<close>, resets the engine and
  calls \<open>initializeWithContext\<close>, which finds \<open>initialized = 0\<close> and asks for \<open>db.mu\<close>
  again; the mutex is held by the caller itself and is not reentrant, so the call
  never returns, whatever the engine, the file and the context. The same holds for
  \<open>Reload\<close> and for the exact engine. The state in which the goroutine waits has no
  dataset and an empty cache.
\<close>

theorem reload_never_returns:
  "ReloadWithContext L E db =
     Blocked (if mu db = Unlocked
              then db\<lparr>mu := WriteLocked, initialized := 0, ranges := [], initErr := None,
                      cache := clear (cache db)\<rparr>
              else db) \<and>
   \<not> returns (ReloadWithContext L E db) \<and> \<not> returns (Reload L E db) \<and>
   Exact_ReloadWithContext L E m =
     Blocked (if mu m = Unlocked
              then m\<lparr>mu := WriteLocked, initialized := 0, ipMap := Map.empty, initErr := None,
                      cache := clear (cache m)\<rparr>
              else m) \<and>
   \<not> returns (Exact_ReloadWithContext L E m)"
  by (simp add: reload_blocks Exact_reload_blocks Reload_def)





end
